theory Spec2Isabelle
  imports Complex_Main "HOL-Library.Word"
begin

section \<open>Frontend query hooks (hooks/useLots.ts, useAuctions.ts, useHouses.ts)\<close>

text \<open>
  A JavaScript string is a sequence of UTF-16 code units, and \<open>query.length\<close> counts
  them. A JavaScript number is an IEEE double; the hooks only test its truthiness, so the
  model keeps the classes that \<open>ToBoolean\<close> distinguishes: \<open>NaN\<close>, negative zero, the two
  infinities and the finite values (\<open>Finite 0\<close> is \<open>+0\<close>).
\<close>

type_synonym js_string = "16 word list"

datatype js_number = NaN | NegZero | Infinity bool | Finite rat

text \<open>\<open>!!id\<close>: a number is falsy when it is \<open>+0\<close>, \<open>-0\<close> or \<open>NaN\<close>.\<close>

fun truthy_number :: "js_number \<Rightarrow> bool" where
  "truthy_number NaN = False"
| "truthy_number NegZero = False"
| "truthy_number (Infinity _) = True"
| "truthy_number (Finite q) = (q \<noteq> 0)"

text \<open>\<open>!!query\<close>: a string is falsy when it is empty.\<close>

definition truthy_string :: "js_string \<Rightarrow> bool" where
  "truthy_string s = (s \<noteq> [])"

text \<open>The optional \<open>params\<close> argument \<open>{ limit?: number; offset?: number }\<close>.\<close>

record page_params =
  limit :: "js_number option"
  offset :: "js_number option"

text \<open>The requests that the query functions of these hooks send through \<open>api\<close>.\<close>

datatype api_request =
    lots_getById js_number
  | lots_search js_string "js_number option" "js_number option"
  | auctions_getById js_number
  | houses_getById js_number

datatype key_part =
    KLit string
  | KNumber js_number
  | KString js_string
  | KParams "page_params option"

text \<open>
  The value of an \<open>enabled\<close> property: a boolean, or \<open>undefined\<close> written explicitly.
  In a record of options, \<open>None\<close> means that the object has no such property.
\<close>

datatype js_enabled = Undefined | JBool bool

text \<open>
  The caller's \<open>options\<close> (\<open>Omit<UseQueryOptions<T>, 'queryKey' | 'queryFn'>\<close>): the type
  leaves \<open>enabled\<close> to the caller. The other properties are handed to the library as they
  are and play no part in what the hooks compute.
\<close>

record query_options =
  opt_enabled :: "js_enabled option"

text \<open>The object literal that a hook passes to \<open>useQuery\<close>.\<close>

record query_config =
  queryKey :: "key_part list"
  queryFn :: api_request
  enabled :: "js_enabled option"

text \<open>
  \<open>{ ..., ...options }\<close>: the spread comes last in every hook, so each own property of
  \<open>options\<close> replaces the property of the same name written before it; spreading
  \<open>undefined\<close> adds nothing.
\<close>

definition spread_options :: "query_config \<Rightarrow> query_options option \<Rightarrow> query_config" where
  "spread_options cfg options =
     (case options of
        None \<Rightarrow> cfg
      | Some opts \<Rightarrow>
          (case opt_enabled opts of
             None \<Rightarrow> cfg
           | Some e \<Rightarrow> cfg\<lparr>enabled := Some e\<rparr>))"

text \<open>
  \<open>useQuery\<close> belongs to the library @tanstack/react-query. Its part here: a query is
  disabled exactly when its \<open>enabled\<close> is \<open>false\<close> (absent and \<open>undefined\<close> mean enabled),
  and an enabled query with nothing cached runs its query function, which sends the
  request. The result is the request sent when the hook mounts on an empty cache.
\<close>

definition query_enabled :: "query_config \<Rightarrow> bool" where
  "query_enabled cfg = (enabled cfg \<noteq> Some (JBool False))"

definition useQuery :: "query_config \<Rightarrow> api_request option" where
  "useQuery cfg = (if query_enabled cfg then Some (queryFn cfg) else None)"

text \<open>\<open>{ q: query, ...params }\<close>, the argument of \<open>api.lots.search\<close>.\<close>

definition search_request :: "js_string \<Rightarrow> page_params option \<Rightarrow> api_request" where
  "search_request query params =
     (case params of
        None \<Rightarrow> lots_search query None None
      | Some p \<Rightarrow> lots_search query (limit p) (offset p))"

definition useLot :: "js_number \<Rightarrow> query_options option \<Rightarrow> query_config" where
  "useLot ident options =
     spread_options
       \<lparr>queryKey = [KLit ''lot'', KNumber ident],
        queryFn = lots_getById ident,
        enabled = Some (JBool (truthy_number ident))\<rparr>
       options"

definition useSearchLots ::
  "js_string \<Rightarrow> page_params option \<Rightarrow> query_options option \<Rightarrow> query_config" where
  "useSearchLots query params options =
     spread_options
       \<lparr>queryKey = [KLit ''lots'', KLit ''search'', KString query, KParams params],
        queryFn = search_request query params,
        enabled = Some (JBool (truthy_string query \<and> length query > 2))\<rparr>
       options"

definition useAuction :: "js_number \<Rightarrow> query_options option \<Rightarrow> query_config" where
  "useAuction ident options =
     spread_options
       \<lparr>queryKey = [KLit ''auction'', KNumber ident],
        queryFn = auctions_getById ident,
        enabled = Some (JBool (truthy_number ident))\<rparr>
       options"

definition useHouse :: "js_number \<Rightarrow> query_options option \<Rightarrow> query_config" where
  "useHouse ident options =
     spread_options
       \<lparr>queryKey = [KLit ''house'', KNumber ident],
        queryFn = houses_getById ident,
        enabled = Some (JBool (truthy_number ident))\<rparr>
       options"

text \<open>What the caller's options say about \<open>enabled\<close>, if anything.\<close>

definition options_enabled :: "query_options option \<Rightarrow> js_enabled option" where
  "options_enabled options = (case options of None \<Rightarrow> None | Some opts \<Rightarrow> opt_enabled opts)"

section \<open>The store (database/init.sql)\<close>

text \<open>
  The tables of the migration script that the scraping subsystem writes: auctions, lots,
  artists and scraping_logs. A row is a record of the table's columns; a column that may
  be \<open>NULL\<close> has an option type. \<open>SERIAL\<close> ids are drawn from the table's sequence.
  The columns that an \<open>INSERT\<close> supplies form the base record; the row extends it by the
  generated columns \<open>id\<close>, \<open>created_at\<close> and \<open>updated_at\<close>.
  Foreign keys into tables outside this model (auction_houses, categories) and the
  length limits of \<open>VARCHAR\<close> columns are not checked here.
\<close>

type_synonym timestamp = nat
type_synonym decimal = rat

record auction_values =
  a_house_id :: int
  a_title :: string
  a_description :: "string option"
  a_start_date :: "timestamp option"
  a_end_date :: "timestamp option"
  a_exhibition_start :: "timestamp option"
  a_exhibition_end :: "timestamp option"
  a_status :: "string option"
  a_location :: "string option"
  a_auction_type :: "string option"
  a_slug :: "string option"
  a_external_id :: "string option"
  a_total_lots :: "int option"
  a_total_estimate_min :: "decimal option"
  a_total_estimate_max :: "decimal option"
  a_total_realized :: "decimal option"
  a_currency :: "string option"
  a_sale_rate :: "decimal option"

record auction_row = auction_values +
  a_id :: int
  a_created_at :: "timestamp option"
  a_updated_at :: "timestamp option"

record lot_values =
  l_auction_id :: int
  l_lot_number :: string
  l_title :: string
  l_description :: "string option"
  l_artist_id :: "int option"
  l_category_id :: "int option"
  l_estimated_price_min :: "decimal option"
  l_estimated_price_max :: "decimal option"
  l_final_price :: "decimal option"
  l_hammer_price :: "decimal option"
  l_buyers_premium :: "decimal option"
  l_currency :: "string option"
  l_sold :: "bool option"
  l_images :: "string list option"
  l_dimensions :: "string option"
  l_medium :: "string option"
  l_provenance :: "string option"
  l_exhibition_history :: "string option"
  l_literature :: "string option"
  l_condition_report :: "string option"
  l_signature :: "string option"
  l_external_id :: "string option"
  l_external_url :: "string option"

record lot_row = lot_values +
  l_id :: int
  l_created_at :: "timestamp option"
  l_updated_at :: "timestamp option"

record artist_values =
  r_name :: string
  r_birth_year :: "int option"
  r_death_year :: "int option"
  r_nationality :: "string option"
  r_movement :: "string option"
  r_biography :: "string option"
  r_verified :: "bool option"

record artist_row = artist_values +
  r_id :: int
  r_created_at :: "timestamp option"
  r_updated_at :: "timestamp option"

record log_values =
  g_house_id :: "int option"
  g_task_type :: string
  g_status :: string
  g_start_time :: "timestamp option"
  g_end_time :: "timestamp option"
  g_items_processed :: "int option"
  g_items_created :: "int option"
  g_items_updated :: "int option"
  g_error_message :: "string option"
  g_metadata :: "string option"

record log_row = log_values +
  g_id :: int

record database =
  auctions :: "auction_row list"
  auctions_id_seq :: int
  lots :: "lot_row list"
  lots_id_seq :: int
  artists :: "artist_row list"
  artists_id_seq :: int
  scraping_logs :: "log_row list"
  scraping_logs_id_seq :: int

definition empty_database :: database where
  "empty_database =
     \<lparr>auctions = [], auctions_id_seq = 0, lots = [], lots_id_seq = 0,
      artists = [], artists_id_seq = 0, scraping_logs = [], scraping_logs_id_seq = 0\<rparr>"

datatype db_error =
    unique_violation string
  | check_violation string
  | foreign_key_violation string

subsection \<open>Constraints\<close>

text \<open>
  \<open>UNIQUE(house_id, external_id)\<close>: two rows conflict when both columns are equal and not
  \<open>NULL\<close>. \<open>external_id\<close> may be \<open>NULL\<close>, and a row with a \<open>NULL\<close> there conflicts with none.
\<close>

definition auction_key :: "'a auction_row_scheme \<Rightarrow> (int \<times> string) option" where
  "auction_key r = map_option (Pair (a_house_id r)) (a_external_id r)"

definition auctions_house_id_external_id_key :: "auction_row list \<Rightarrow> bool" where
  "auctions_house_id_external_id_key rows = distinct (List.map_filter auction_key rows)"

text \<open>\<open>UNIQUE(auction_id, lot_number)\<close>: both columns are \<open>NOT NULL\<close>.\<close>

definition lot_key :: "'a lot_row_scheme \<Rightarrow> int \<times> string" where
  "lot_key l = (l_auction_id l, l_lot_number l)"

definition lots_auction_id_lot_number_key :: "lot_row list \<Rightarrow> bool" where
  "lots_auction_id_lot_number_key rows = distinct (map lot_key rows)"

text \<open>A \<open>CHECK (c IN (...))\<close> passes on \<open>NULL\<close>.\<close>

definition check_in :: "string option \<Rightarrow> string list \<Rightarrow> bool" where
  "check_in v allowed = (case v of None \<Rightarrow> True | Some s \<Rightarrow> List.member allowed s)"

definition auctions_status_check :: "auction_row \<Rightarrow> bool" where
  "auctions_status_check r =
     check_in (a_status r) [''upcoming'', ''active'', ''completed'', ''cancelled'']"

definition auctions_auction_type_check :: "auction_row \<Rightarrow> bool" where
  "auctions_auction_type_check r =
     check_in (a_auction_type r) [''live'', ''online'', ''hybrid'']"

definition scraping_logs_status_check :: "log_row \<Rightarrow> bool" where
  "scraping_logs_status_check r =
     check_in (Some (g_status r)) [''started'', ''completed'', ''failed'', ''cancelled'']"

text \<open>
  \<open>lots.auction_id REFERENCES auctions(id)\<close> and \<open>lots.artist_id REFERENCES artists(id)\<close>.
\<close>

definition lots_auction_id_fkey :: "database \<Rightarrow> bool" where
  "lots_auction_id_fkey db =
     list_all (\<lambda>l. List.member (map a_id (auctions db)) (l_auction_id l)) (lots db)"

definition lots_artist_id_fkey :: "database \<Rightarrow> bool" where
  "lots_artist_id_fkey db =
     list_all
       (\<lambda>l. case l_artist_id l of
              None \<Rightarrow> True
            | Some i \<Rightarrow> List.member (map r_id (artists db)) i)
       (lots db)"

text \<open>
  Constraints are checked at the end of each statement: the statement's result is
  committed when every constraint holds of it, and otherwise the statement raises the
  first violation and changes nothing.
\<close>

definition check_constraints :: "database \<Rightarrow> db_error + database" where
  "check_constraints db =
     (if \<not> distinct (map a_id (auctions db)) then Inl (unique_violation ''auctions_pkey'')
      else if \<not> auctions_house_id_external_id_key (auctions db)
        then Inl (unique_violation ''auctions_house_id_external_id_key'')
      else if \<not> list_all auctions_status_check (auctions db)
        then Inl (check_violation ''auctions_status_check'')
      else if \<not> list_all auctions_auction_type_check (auctions db)
        then Inl (check_violation ''auctions_auction_type_check'')
      else if \<not> distinct (map l_id (lots db)) then Inl (unique_violation ''lots_pkey'')
      else if \<not> lots_auction_id_lot_number_key (lots db)
        then Inl (unique_violation ''lots_auction_id_lot_number_key'')
      else if \<not> lots_auction_id_fkey db
        then Inl (foreign_key_violation ''lots_auction_id_fkey'')
      else if \<not> lots_artist_id_fkey db
        then Inl (foreign_key_violation ''lots_artist_id_fkey'')
      else if \<not> distinct (map r_id (artists db))
        then Inl (unique_violation ''artists_pkey'')
      else if \<not> distinct (map g_id (scraping_logs db))
        then Inl (unique_violation ''scraping_logs_pkey'')
      else if \<not> list_all scraping_logs_status_check (scraping_logs db)
        then Inl (check_violation ''scraping_logs_status_check'')
      else Inr db)"

subsection \<open>Statements\<close>

text \<open>
  \<open>INSERT\<close>: the id is the next value of the sequence, \<open>created_at\<close> and \<open>updated_at\<close>
  take their default \<open>NOW()\<close>.
\<close>

definition insert_auction :: "auction_values \<Rightarrow> timestamp \<Rightarrow> database \<Rightarrow> db_error + database" where
  "insert_auction v now db =
     (let i = auctions_id_seq db + 1;
          row = auction_values.extend v (auction_row.fields i (Some now) (Some now))
      in check_constraints (db\<lparr>auctions := auctions db @ [row], auctions_id_seq := i\<rparr>))"

definition insert_lot :: "lot_values \<Rightarrow> timestamp \<Rightarrow> database \<Rightarrow> db_error + database" where
  "insert_lot v now db =
     (let i = lots_id_seq db + 1;
          row = lot_values.extend v (lot_row.fields i (Some now) (Some now))
      in check_constraints (db\<lparr>lots := lots db @ [row], lots_id_seq := i\<rparr>))"

definition insert_artist :: "artist_values \<Rightarrow> timestamp \<Rightarrow> database \<Rightarrow> db_error + database" where
  "insert_artist v now db =
     (let i = artists_id_seq db + 1;
          row = artist_values.extend v (artist_row.fields i (Some now) (Some now))
      in check_constraints (db\<lparr>artists := artists db @ [row], artists_id_seq := i\<rparr>))"

definition insert_log :: "log_values \<Rightarrow> database \<Rightarrow> db_error + database" where
  "insert_log v db =
     (let i = scraping_logs_id_seq db + 1;
          row = log_values.extend v (log_row.fields i)
      in check_constraints
           (db\<lparr>scraping_logs := scraping_logs db @ [row], scraping_logs_id_seq := i\<rparr>))"

text \<open>
  The trigger function \<open>update_updated_at_column\<close>, run \<open>BEFORE UPDATE ... FOR EACH ROW\<close> on
  auctions, lots and artists: it sets \<open>NEW.updated_at = NOW()\<close> and returns \<open>NEW\<close>.
\<close>

definition update_auctions_updated_at :: "timestamp \<Rightarrow> auction_row \<Rightarrow> auction_row" where
  "update_auctions_updated_at now new = new\<lparr>a_updated_at := Some now\<rparr>"

definition update_lots_updated_at :: "timestamp \<Rightarrow> lot_row \<Rightarrow> lot_row" where
  "update_lots_updated_at now new = new\<lparr>l_updated_at := Some now\<rparr>"

definition update_artists_updated_at :: "timestamp \<Rightarrow> artist_row \<Rightarrow> artist_row" where
  "update_artists_updated_at now new = new\<lparr>r_updated_at := Some now\<rparr>"

text \<open>
  \<open>UPDATE t SET ... WHERE ...\<close>: every row that satisfies the condition is replaced by
  the result of the assignments, passed through the table's trigger. scraping_logs has
  no trigger.
\<close>

definition update_auctions ::
  "(auction_row \<Rightarrow> bool) \<Rightarrow> (auction_row \<Rightarrow> auction_row) \<Rightarrow> timestamp \<Rightarrow> database
     \<Rightarrow> db_error + database" where
  "update_auctions cond assign now db =
     check_constraints
       (db\<lparr>auctions :=
          map (\<lambda>r. if cond r then update_auctions_updated_at now (assign r) else r)
            (auctions db)\<rparr>)"

definition update_lots ::
  "(lot_row \<Rightarrow> bool) \<Rightarrow> (lot_row \<Rightarrow> lot_row) \<Rightarrow> timestamp \<Rightarrow> database
     \<Rightarrow> db_error + database" where
  "update_lots cond assign now db =
     check_constraints
       (db\<lparr>lots :=
          map (\<lambda>r. if cond r then update_lots_updated_at now (assign r) else r) (lots db)\<rparr>)"

definition update_logs ::
  "(log_row \<Rightarrow> bool) \<Rightarrow> (log_row \<Rightarrow> log_row) \<Rightarrow> database \<Rightarrow> db_error + database" where
  "update_logs cond assign db =
     check_constraints
       (db\<lparr>scraping_logs := map (\<lambda>r. if cond r then assign r else r) (scraping_logs db)\<rparr>)"

text \<open>
  \<open>DELETE FROM auctions WHERE ...\<close>: \<open>lots.auction_id\<close> is declared \<open>ON DELETE CASCADE\<close>, so
  the lots of a deleted auction go with it.
\<close>

definition delete_auctions :: "(auction_row \<Rightarrow> bool) \<Rightarrow> database \<Rightarrow> db_error + database" where
  "delete_auctions cond db =
     (let gone = map a_id (filter cond (auctions db))
      in check_constraints
           (db\<lparr>auctions := filter (\<lambda>r. \<not> cond r) (auctions db),
               lots := filter (\<lambda>l. \<not> List.member gone (l_auction_id l)) (lots db)\<rparr>))"

definition delete_lots :: "(lot_row \<Rightarrow> bool) \<Rightarrow> database \<Rightarrow> db_error + database" where
  "delete_lots cond db =
     check_constraints (db\<lparr>lots := filter (\<lambda>r. \<not> cond r) (lots db)\<rparr>)"

datatype statement =
    INSERT_auction auction_values
  | UPDATE_auctions "auction_row \<Rightarrow> bool" "auction_row \<Rightarrow> auction_row"
  | DELETE_auctions "auction_row \<Rightarrow> bool"
  | INSERT_lot lot_values
  | UPDATE_lots "lot_row \<Rightarrow> bool" "lot_row \<Rightarrow> lot_row"
  | DELETE_lots "lot_row \<Rightarrow> bool"
  | INSERT_artist artist_values
  | INSERT_log log_values
  | UPDATE_logs "log_row \<Rightarrow> bool" "log_row \<Rightarrow> log_row"

fun execute :: "statement \<Rightarrow> timestamp \<Rightarrow> database \<Rightarrow> db_error + database" where
  "execute (INSERT_auction v) now db = insert_auction v now db"
| "execute (UPDATE_auctions cond assign) now db = update_auctions cond assign now db"
| "execute (DELETE_auctions cond) now db = delete_auctions cond db"
| "execute (INSERT_lot v) now db = insert_lot v now db"
| "execute (UPDATE_lots cond assign) now db = update_lots cond assign now db"
| "execute (DELETE_lots cond) now db = delete_lots cond db"
| "execute (INSERT_artist v) now db = insert_artist v now db"
| "execute (INSERT_log v) now db = insert_log v db"
| "execute (UPDATE_logs cond assign) now db = update_logs cond assign db"

text \<open>
  The store serialises statements: whatever jobs run, one after another or at the same
  time, the store sees one sequence of statements, each with the clock reading at which
  it runs. A statement that raises is rolled back and the sequence goes on.
\<close>

fun run_statements :: "(statement \<times> timestamp) list \<Rightarrow> database \<Rightarrow> database" where
  "run_statements [] db = db"
| "run_statements ((st, now) # rest) db =
     (case execute st now db of
        Inl _ \<Rightarrow> run_statements rest db
      | Inr db' \<Rightarrow> run_statements rest db')"

section \<open>Run ledger (database/init.sql, scraping_logs)\<close>


section \<open>Artist resolution\<close>

text \<open>
  \<open>INSERT INTO artists (name) VALUES (...)\<close>: every column that the statement does not
  name takes the table's \<open>DEFAULT\<close>, which is \<open>NULL\<close> where none is declared and \<open>FALSE\<close> for
  \<open>verified\<close>.
\<close>

definition artist_defaults :: "string \<Rightarrow> artist_values" where
  "artist_defaults name =
     \<lparr>r_name = name, r_birth_year = None, r_death_year = None, r_nationality = None,
      r_movement = None, r_biography = None, r_verified = Some False\<rparr>"

text \<open>
  Modelled from the spec: the Normalizer's artist resolution, whose code is not among
  the repository's sources. It looks for an existing record whose normalized name equals the
  normalized name of the raw value; failing that, it creates a record under the
  normalized name, naming no other column. The normalization of names is an argument.
\<close>

definition resolve_artist ::
  "(string \<Rightarrow> string) \<Rightarrow> string \<Rightarrow> timestamp \<Rightarrow> database \<Rightarrow> db_error + (int \<times> database)" where
  "resolve_artist normalized_name raw now db =
     (case find (\<lambda>r. normalized_name (r_name r) = normalized_name raw) (artists db) of
        Some r \<Rightarrow> Inr (r_id r, db)
      | None \<Rightarrow>
          (case insert_artist (artist_defaults (normalized_name raw)) now db of
             Inl e \<Rightarrow> Inl e
           | Inr db' \<Rightarrow> Inr (artists_id_seq db', db')))"

section \<open>Scheduling (AUCTION_HOUSES_APP_PLAN.md, 2.2)\<close>









section \<open>Upsert engine\<close>

text \<open>
  What a Python call can raise here: a failed request, a page without the expected
  structure, a missing dictionary key, a record that fails the required-field checks, a
  statement that the store rejects. \<open>str\<close> is the message that the handler logs.
\<close>

datatype exn =
    RequestException string
  | ParseError string
  | KeyError string
  | ValidationError string
  | IntegrityError db_error

fun str :: "exn \<Rightarrow> string" where
  "str (RequestException m) = m"
| "str (ParseError m) = m"
| "str (KeyError m) = m"
| "str (ValidationError m) = m"
| "str (IntegrityError (unique_violation c)) = c"
| "str (IntegrityError (check_violation c)) = c"
| "str (IntegrityError (foreign_key_violation c)) = c"

datatype report = Created | Updated

text \<open>
  Modelled from the spec: the Upsert Engine, whose code is not among the repository's
  sources. Given a canonical candidate and its natural key it reads the record with that
  key; if there is none it inserts the candidate and reports \<open>Created\<close>; otherwise it
  overwrites the designated mutable fields of that record (for an auction: title, dates,
  status, totals) and reports \<open>Updated\<close>. It returns the record's internal id as well.
  The statements are those of the store above, so the table's constraints and its
  trigger apply.
\<close>

definition find_auction :: "int \<times> string \<Rightarrow> database \<Rightarrow> auction_row option" where
  "find_auction k db = find (\<lambda>r. auction_key r = Some k) (auctions db)"

definition overwrite_auction :: "auction_values \<Rightarrow> auction_row \<Rightarrow> auction_row" where
  "overwrite_auction v r =
     r\<lparr>a_title := a_title v,
       a_start_date := a_start_date v,
       a_end_date := a_end_date v,
       a_exhibition_start := a_exhibition_start v,
       a_exhibition_end := a_exhibition_end v,
       a_status := a_status v,
       a_total_lots := a_total_lots v,
       a_total_estimate_min := a_total_estimate_min v,
       a_total_estimate_max := a_total_estimate_max v,
       a_total_realized := a_total_realized v\<rparr>"

definition upsert_auction ::
  "int \<times> string \<Rightarrow> auction_values \<Rightarrow> timestamp \<Rightarrow> database
     \<Rightarrow> exn + (report \<times> int \<times> database)" where
  "upsert_auction k v now db =
     (case find_auction k db of
        None \<Rightarrow>
          (case insert_auction (v\<lparr>a_house_id := fst k, a_external_id := Some (snd k)\<rparr>) now db of
             Inl err \<Rightarrow> Inl (IntegrityError err)
           | Inr db' \<Rightarrow> Inr (Created, auctions_id_seq db', db'))
      | Some r \<Rightarrow>
          (case update_auctions (\<lambda>x. a_id x = a_id r) (overwrite_auction v) now db of
             Inl err \<Rightarrow> Inl (IntegrityError err)
           | Inr db' \<Rightarrow> Inr (Updated, a_id r, db')))"

text \<open>
  For a lot the spec designates no subset: every column that the candidate supplies,
  the key apart, is overwritten.
\<close>

definition find_lot :: "int \<times> string \<Rightarrow> database \<Rightarrow> lot_row option" where
  "find_lot k db = find (\<lambda>l. lot_key l = k) (lots db)"

definition overwrite_lot :: "lot_values \<Rightarrow> lot_row \<Rightarrow> lot_row" where
  "overwrite_lot v l =
     lot_values.extend (v\<lparr>l_auction_id := l_auction_id l, l_lot_number := l_lot_number l\<rparr>)
       (lot_row.fields (l_id l) (l_created_at l) (l_updated_at l))"

definition upsert_lot ::
  "int \<times> string \<Rightarrow> lot_values \<Rightarrow> timestamp \<Rightarrow> database \<Rightarrow> exn + (report \<times> int \<times> database)" where
  "upsert_lot k v now db =
     (case find_lot k db of
        None \<Rightarrow>
          (case insert_lot (v\<lparr>l_auction_id := fst k, l_lot_number := snd k\<rparr>) now db of
             Inl err \<Rightarrow> Inl (IntegrityError err)
           | Inr db' \<Rightarrow> Inr (Created, lots_id_seq db', db'))
      | Some l \<Rightarrow>
          (case update_lots (\<lambda>x. l_id x = l_id l) (overwrite_lot v) now db of
             Inl err \<Rightarrow> Inl (IntegrityError err)
           | Inr db' \<Rightarrow> Inr (Updated, l_id l, db')))"

section \<open>The scraping task (AUCTION_HOUSES_APP_PLAN.md, 2.1 and 2.3)\<close>

text \<open>
  What an adapter returns: \<open>scrape_auctions\<close> a list of dictionaries, of which the task
  reads \<open>auction_data['url']\<close>, and \<open>scrape_lots\<close> a list of dictionaries with the keys
  \<open>lot_number\<close>, \<open>title\<close>, \<open>description\<close>, \<open>estimated_price\<close> and \<open>images\<close>. A key of
  \<open>auction_data\<close> that may be missing has an option type.
\<close>

record auction_data =
  d_url :: "string option"
  d_external_id :: "string option"
  d_title :: "string option"
  d_start_date :: "timestamp option"
  d_end_date :: "timestamp option"
  d_status :: "string option"
  d_total_lots :: "int option"

record lot_data =
  ld_lot_number :: string
  ld_title :: string
  ld_description :: string
  ld_estimated_price :: "decimal option"
  ld_images :: "string list"

text \<open>
  An adapter with the upstream site as it is at the time of a run: each method either
  raises or returns its list. \<open>house_id\<close> is the adapter's row in auction_houses.
\<close>

record adapter =
  house_id :: int
  scrape_auctions :: "exn + auction_data list"
  scrape_lots :: "string \<Rightarrow> exn + lot_data list"

text \<open>
  Modelled from the spec: the Normalizer, whose code is not among the repository's sources.
  It takes a raw record and the owning source and gives the canonical candidate with its
  natural key, or a validation failure when a required field (the external id, the
  title) is missing. Columns that the raw record does not carry are \<open>NULL\<close> or the
  column's default.
\<close>

definition normalize_auction ::
  "int \<Rightarrow> auction_data \<Rightarrow> exn + ((int \<times> string) \<times> auction_values)" where
  "normalize_auction house raw =
     (case d_external_id raw of
        None \<Rightarrow> Inl (ValidationError ''external_id'')
      | Some e \<Rightarrow>
          (case d_title raw of
             None \<Rightarrow> Inl (ValidationError ''title'')
           | Some t \<Rightarrow>
               Inr ((house, e),
                 \<lparr>a_house_id = house, a_title = t, a_description = None,
                  a_start_date = d_start_date raw, a_end_date = d_end_date raw,
                  a_exhibition_start = None, a_exhibition_end = None,
                  a_status = d_status raw, a_location = None,
                  a_auction_type = Some ''live'', a_slug = None, a_external_id = Some e,
                  a_total_lots = d_total_lots raw, a_total_estimate_min = None,
                  a_total_estimate_max = None, a_total_realized = None,
                  a_currency = Some ''USD'', a_sale_rate = None\<rparr>)))"

definition normalize_lot :: "int \<Rightarrow> lot_data \<Rightarrow> (int \<times> string) \<times> lot_values" where
  "normalize_lot auction_id raw =
     ((auction_id, ld_lot_number raw),
      \<lparr>l_auction_id = auction_id, l_lot_number = ld_lot_number raw, l_title = ld_title raw,
       l_description = Some (ld_description raw), l_artist_id = None, l_category_id = None,
       l_estimated_price_min = ld_estimated_price raw,
       l_estimated_price_max = ld_estimated_price raw, l_final_price = None,
       l_hammer_price = None, l_buyers_premium = None, l_currency = Some ''USD'',
       l_sold = Some False, l_images = Some (ld_images raw), l_dimensions = None,
       l_medium = None, l_provenance = None, l_exhibition_history = None,
       l_literature = None, l_condition_report = None, l_signature = None,
       l_external_id = None, l_external_url = None\<rparr>)"

text \<open>
  Modelled from the spec: the tallies of the run ledger, incremented as the Upsert Engine
  reports.
\<close>

record tallies =
  processed :: nat
  created :: nat
  updated :: nat

definition no_tallies :: tallies where
  "no_tallies = \<lparr>processed = 0, created = 0, updated = 0\<rparr>"

fun tally :: "report \<Rightarrow> tallies \<Rightarrow> tallies" where
  "tally Created t = t\<lparr>processed := processed t + 1, created := created t + 1\<rparr>"
| "tally Updated t = t\<lparr>processed := processed t + 1, updated := updated t + 1\<rparr>"

text \<open>
  Modelled from the spec: \<open>save_auction\<close> and \<open>save_lots\<close>, which the task calls and
  the repository's sources define nowhere. They normalize and upsert, each record in a
  transaction of its own, and an exception leaves what was committed before it.
\<close>

definition save_auction ::
  "int \<Rightarrow> auction_data \<Rightarrow> timestamp \<Rightarrow> database \<Rightarrow> exn + (report \<times> int \<times> database)" where
  "save_auction house raw now db =
     (case normalize_auction house raw of
        Inl e \<Rightarrow> Inl e
      | Inr (k, v) \<Rightarrow> upsert_auction k v now db)"

fun save_lots ::
  "int \<Rightarrow> lot_data list \<Rightarrow> timestamp \<Rightarrow> database \<Rightarrow> tallies \<Rightarrow> database \<times> tallies \<times> exn option" where
  "save_lots auction_id [] now db t = (db, t, None)"
| "save_lots auction_id (raw # rest) now db t =
     (case upsert_lot (fst (normalize_lot auction_id raw)) (snd (normalize_lot auction_id raw)) now db of
        Inl e \<Rightarrow> (db, t, Some e)
      | Inr (rep, _, db') \<Rightarrow> save_lots auction_id rest now db' (tally rep t))"

text \<open>
  The body of the \<open>for auction_data in auctions\<close> loop: save the auction, read
  \<open>auction_data['url']\<close>, scrape its lots, save them. The first exception leaves the loop;
  the result carries the store and the tallies as they are at that point.
\<close>

fun scrape_loop ::
  "adapter \<Rightarrow> auction_data list \<Rightarrow> timestamp \<Rightarrow> database \<Rightarrow> tallies
     \<Rightarrow> database \<times> tallies \<times> exn option" where
  "scrape_loop ad [] now db t = (db, t, None)"
| "scrape_loop ad (auction_data # rest) now db t =
     (case save_auction (house_id ad) auction_data now db of
        Inl e \<Rightarrow> (db, t, Some e)
      | Inr (rep, auction_id, db1) \<Rightarrow>
          (case d_url auction_data of
             None \<Rightarrow> (db1, tally rep t, Some (KeyError ''url''))
           | Some url \<Rightarrow>
               (case scrape_lots ad url of
                  Inl e \<Rightarrow> (db1, tally rep t, Some e)
                | Inr lots_data \<Rightarrow>
                    (case save_lots auction_id lots_data now db1 (tally rep t) of
                       (db2, t2, Some e) \<Rightarrow> (db2, t2, Some e)
                     | (db2, t2, None) \<Rightarrow> scrape_loop ad rest now db2 t2))))"

datatype job_status = Completed | Failed string

record outcome =
  o_house :: string
  o_status :: job_status
  o_tallies :: tallies

definition log_scraping_success :: "string \<Rightarrow> tallies \<Rightarrow> outcome" where
  "log_scraping_success house t = \<lparr>o_house = house, o_status = Completed, o_tallies = t\<rparr>"

definition log_scraping_error :: "string \<Rightarrow> string \<Rightarrow> tallies \<Rightarrow> outcome" where
  "log_scraping_error house msg t = \<lparr>o_house = house, o_status = Failed msg, o_tallies = t\<rparr>"

text \<open>
  The task: one \<open>try\<close> around the whole body, and one handler, \<open>except Exception\<close>, which
  logs the error. The task returns the store it leaves and the entry it logs.
\<close>

definition scrape_house_data ::
  "adapter \<Rightarrow> string \<Rightarrow> timestamp \<Rightarrow> database \<Rightarrow> database \<times> outcome" where
  "scrape_house_data ad house now db =
     (case scrape_auctions ad of
        Inl e \<Rightarrow> (db, log_scraping_error house (str e) no_tallies)
      | Inr auctions_data \<Rightarrow>
          (case scrape_loop ad auctions_data now db no_tallies of
             (db', t, None) \<Rightarrow> (db', log_scraping_success house t)
           | (db', t, Some e) \<Rightarrow> (db', log_scraping_error house (str e) t)))"

text \<open>
  A worker runs the tasks it takes from the queue, each with the clock reading of its
  run. \<open>get_adapter(house_name)\<close> stands before the \<open>try\<close>: for a name without an adapter
  the task raises and logs nothing.
\<close>

record world =
  store :: database
  history :: "outcome list"

definition run_task :: "(string \<Rightarrow> adapter option) \<Rightarrow> string \<times> timestamp \<Rightarrow> world \<Rightarrow> world" where
  "run_task get_adapter job w =
     (case get_adapter (fst job) of
        None \<Rightarrow> w
      | Some ad \<Rightarrow>
          (case scrape_house_data ad (fst job) (snd job) (store w) of
             (db', entry) \<Rightarrow> \<lparr>store = db', history = history w @ [entry]\<rparr>))"

definition run_tasks :: "(string \<Rightarrow> adapter option) \<Rightarrow> (string \<times> timestamp) list \<Rightarrow> world \<Rightarrow> world" where
  "run_tasks get_adapter jobs w = fold (run_task get_adapter) jobs w"

section \<open>Example data\<close>

text \<open>
  The sources of the examples: a raw auction with an external id and a title, one
  without a title, and the two states of source X (house 1), before and after the title
  of auction 101 changes. Source X lists no lots.
\<close>

definition raw_auction :: "string \<Rightarrow> string option \<Rightarrow> auction_data" where
  "raw_auction e t =
     \<lparr>d_url = Some (''/subasta/'' @ e), d_external_id = Some e, d_title = t,
      d_start_date = None, d_end_date = None, d_status = Some ''upcoming'',
      d_total_lots = Some 0\<rparr>"

definition source_x :: "string \<Rightarrow> adapter" where
  "source_x spring_title =
     \<lparr>house_id = 1,
      scrape_auctions =
        Inr [raw_auction ''101'' (Some spring_title), raw_auction ''102'' (Some ''Summer Sale'')],
      scrape_lots = (\<lambda>url. Inr [])\<rparr>"

definition five_auctions :: adapter where
  "five_auctions =
     \<lparr>house_id = 1,
      scrape_auctions =
        Inr [raw_auction ''1'' (Some ''One''), raw_auction ''2'' (Some ''Two''),
             raw_auction ''3'' None,
             raw_auction ''4'' (Some ''Four''), raw_auction ''5'' (Some ''Five'')],
      scrape_lots = (\<lambda>url. Inr [])\<rparr>"

definition one_lot :: lot_data where
  "one_lot =
     \<lparr>ld_lot_number = ''7'', ld_title = ''Bodegon'', ld_description = ''Oleo'',
      ld_estimated_price = Some 1500, ld_images = []\<rparr>"

text \<open>
  A second source, Y (house 2), with one auction and one lot, and the registry of the two
  sources.
\<close>

definition source_y :: adapter where
  "source_y =
     \<lparr>house_id = 2,
      scrape_auctions = Inr [raw_auction ''9'' (Some ''Arte Latinoamericano'')],
      scrape_lots = (\<lambda>url. Inr [one_lot])\<rparr>"

definition two_sources :: "string \<Rightarrow> adapter option" where
  "two_sources house =
     (if house = ''x'' then Some (source_x ''Spring Sale'')
      else if house = ''y'' then Some source_y else None)"


section \<open>Notions used in the proofs\<close>

text \<open>
  The internal id under which a natural key is stored, and the relation between a store
  and a later one in which every stored key is still stored, auctions under the same id.
\<close>

definition auction_id_of :: "int \<times> string \<Rightarrow> database \<Rightarrow> int option" where
  "auction_id_of k db = map_option a_id (find_auction k db)"

definition persists :: "database \<Rightarrow> database \<Rightarrow> bool" where
  "persists db db' \<longleftrightarrow>
     (\<forall>k i. auction_id_of k db = Some i \<longrightarrow> auction_id_of k db' = Some i) \<and>
     (\<forall>k. find_lot k db \<noteq> None \<longrightarrow> find_lot k db' \<noteq> None)"

text \<open>
  A raw auction is covered by a store when its key is stored and so is the key of every
  lot that the adapter lists for it.
\<close>

definition covered :: "adapter \<Rightarrow> auction_data \<Rightarrow> database \<Rightarrow> bool" where
  "covered ad x db \<longleftrightarrow>
     (\<exists>e i url ls. d_external_id x = Some e \<and> auction_id_of (house_id ad, e) db = Some i \<and>
        d_url x = Some url \<and> scrape_lots ad url = Inr ls \<and>
        (\<forall>l \<in> set ls. find_lot (i, ld_lot_number l) db \<noteq> None))"

text \<open>The number of records that an adapter lists: the auctions and their lots.\<close>

fun job_items :: "adapter \<Rightarrow> auction_data list \<Rightarrow> nat" where
  "job_items ad [] = 0"
| "job_items ad (x # xs) =
     1 + (case d_url x of
            None \<Rightarrow> 0
          | Some url \<Rightarrow> (case scrape_lots ad url of Inl _ \<Rightarrow> 0 | Inr ls \<Rightarrow> length ls))
       + job_items ad xs"

text \<open>
  A store is well formed when it satisfies its constraints and every id in it was drawn
  from its table's sequence. The empty store is, and the statements keep it so.
\<close>

definition well_formed :: "database \<Rightarrow> bool" where
  "well_formed db \<longleftrightarrow>
     check_constraints db = Inr db \<and>
     list_all (\<lambda>r. a_id r \<le> auctions_id_seq db) (auctions db) \<and>
     list_all (\<lambda>l. l_id l \<le> lots_id_seq db) (lots db)"

text \<open>The row that an upsert inserts, and the row that it leaves where it overwrites.\<close>

definition new_auction :: "int \<times> string \<Rightarrow> auction_values \<Rightarrow> int \<Rightarrow> timestamp \<Rightarrow> auction_row" where
  "new_auction k v i now =
     auction_values.extend (v\<lparr>a_house_id := fst k, a_external_id := Some (snd k)\<rparr>)
       (auction_row.fields i (Some now) (Some now))"

definition touch_auction :: "auction_row \<Rightarrow> auction_values \<Rightarrow> timestamp \<Rightarrow> auction_row \<Rightarrow> auction_row" where
  "touch_auction r v now x =
     (if a_id x = a_id r then update_auctions_updated_at now (overwrite_auction v x) else x)"

definition new_lot :: "int \<times> string \<Rightarrow> lot_values \<Rightarrow> int \<Rightarrow> timestamp \<Rightarrow> lot_row" where
  "new_lot k v i now =
     lot_values.extend (v\<lparr>l_auction_id := fst k, l_lot_number := snd k\<rparr>)
       (lot_row.fields i (Some now) (Some now))"

definition touch_lot :: "lot_row \<Rightarrow> lot_values \<Rightarrow> timestamp \<Rightarrow> lot_row \<Rightarrow> lot_row" where
  "touch_lot l v now x =
     (if l_id x = l_id l then update_lots_updated_at now (overwrite_lot v x) else x)"

text \<open>
  Two stores hold a source's records alike when the same external ids of that source are
  stored in both and each stored auction has the same lot numbers in both; the internal
  ids may differ. A store leaves a source's records untouched, with respect to an earlier
  one, when that source's keys are stored under the same ids in both, with the same lot
  numbers.
\<close>

definition stored_alike :: "int \<Rightarrow> database \<Rightarrow> database \<Rightarrow> bool" where
  "stored_alike h db1 db2 \<longleftrightarrow>
     (\<forall>e. rel_option
            (\<lambda>i1 i2. \<forall>num. (find_lot (i1, num) db1 = None) = (find_lot (i2, num) db2 = None))
            (auction_id_of (h, e) db1) (auction_id_of (h, e) db2))"

definition untouched :: "int \<Rightarrow> database \<Rightarrow> database \<Rightarrow> bool" where
  "untouched h db db' \<longleftrightarrow>
     (\<forall>e. auction_id_of (h, e) db' = auction_id_of (h, e) db) \<and>
     (\<forall>e i num. auction_id_of (h, e) db = Some i
        \<longrightarrow> (find_lot (i, num) db' = None) = (find_lot (i, num) db = None))"

section \<open>Properties of the query hooks\<close>

lemma enabled_spread_options:
  "enabled (spread_options cfg options) =
     (case options_enabled options of None \<Rightarrow> enabled cfg | Some e \<Rightarrow> Some e)"
  by (simp add: spread_options_def options_enabled_def split: option.splits)

lemma queryFn_spread_options: "queryFn (spread_options cfg options) = queryFn cfg"
  by (simp add: spread_options_def split: option.splits)

lemma useQuery_spread_options:
  "useQuery (spread_options cfg options) =
     (if (case options_enabled options of None \<Rightarrow> enabled cfg | Some e \<Rightarrow> Some e)
           = Some (JBool False)
      then None else Some (queryFn cfg))"
  by (simp add: useQuery_def query_enabled_def enabled_spread_options queryFn_spread_options)

text \<open>
  C9, as stated, fails: the empty search string with the caller's option
  \<open>enabled: true\<close> gives an enabled query, and the search request is sent.
\<close>

theorem useSearchLots_short_query_counterexample:
  "length ([] :: js_string) \<le> 2 \<and>
   useQuery (useSearchLots [] None (Some \<lparr>opt_enabled = Some (JBool True)\<rparr>))
     = Some (lots_search [] None None)"
  by (simp add: useSearchLots_def useQuery_spread_options options_enabled_def
      search_request_def)

text \<open>
  C9, amended: \<open>useSearchLots\<close> computes \<open>enabled\<close> as "the string has more than two code
  units", and the caller's options come after it. For a search string of length 2 or
  less (the empty string included) the query is disabled and no request is sent when
  the options do not set \<open>enabled\<close> or set it to \<open>false\<close>; for a string of length 3 or more
  the lot-search request is sent when the options do not set \<open>enabled\<close> to \<open>false\<close>.
\<close>

theorem useSearchLots_enabled:
  "(length query \<le> 2 \<and> options_enabled options \<in> {None, Some (JBool False)}
      \<longrightarrow> useQuery (useSearchLots query params options) = None) \<and>
   (3 \<le> length query \<and> options_enabled options \<noteq> Some (JBool False)
      \<longrightarrow> useQuery (useSearchLots query params options) = Some (search_request query params))"
  by (cases query)
    (auto simp: useSearchLots_def useQuery_spread_options truthy_string_def
      split: option.splits)

theorem useSearchLots_enabled_witness:
  "useQuery (useSearchLots [0x61, 0x62] None None) = None \<and>
   useQuery (useSearchLots [0x61, 0x62, 0x63] (Some \<lparr>limit = Some (Finite 20), offset = None\<rparr>) None)
     = Some (lots_search [0x61, 0x62, 0x63] (Some (Finite 20)) None)"
  using useSearchLots_enabled [of "[0x61, 0x62]" None None]
    useSearchLots_enabled [of "[0x61, 0x62, 0x63]" None
      "Some \<lparr>limit = Some (Finite 20), offset = None\<rparr>"]
  by (simp add: options_enabled_def search_request_def)

text \<open>
  C10, as stated, fails in both halves: with the caller's option \<open>enabled: true\<close> the
  falsy id 0 gives an enabled query, and the id \<open>NaN\<close> is not zero, yet it is falsy and
  its query is disabled.
\<close>

theorem useLot_falsy_id_counterexample:
  "\<not> truthy_number (Finite 0) \<and>
   useQuery (useLot (Finite 0) (Some \<lparr>opt_enabled = Some (JBool True)\<rparr>))
     = Some (lots_getById (Finite 0)) \<and>
   NaN \<noteq> Finite 0 \<and> NaN \<noteq> NegZero \<and> useQuery (useLot NaN None) = None"
  by (simp add: useLot_def useQuery_spread_options options_enabled_def)

text \<open>
  C10, amended: \<open>useLot\<close>, \<open>useAuction\<close> and \<open>useHouse\<close> compute \<open>enabled\<close> as \<open>!!id\<close>, and
  the caller's options come after it. For a falsy id (\<open>+0\<close>, \<open>-0\<close>, \<open>NaN\<close>) the query is
  disabled and no request is sent when the options do not set \<open>enabled\<close> or set it to
  \<open>false\<close>; for a truthy id (not zero and not \<open>NaN\<close>) the hook's getById request is sent
  when the options do not set \<open>enabled\<close> to \<open>false\<close>.
\<close>

theorem single_entity_hooks_enabled:
  "(\<not> truthy_number ident \<and> options_enabled options \<in> {None, Some (JBool False)}
      \<longrightarrow> useQuery (useLot ident options) = None \<and>
          useQuery (useAuction ident options) = None \<and>
          useQuery (useHouse ident options) = None) \<and>
   (truthy_number ident \<and> options_enabled options \<noteq> Some (JBool False)
      \<longrightarrow> useQuery (useLot ident options) = Some (lots_getById ident) \<and>
          useQuery (useAuction ident options) = Some (auctions_getById ident) \<and>
          useQuery (useHouse ident options) = Some (houses_getById ident))"
  by (auto simp: useLot_def useAuction_def useHouse_def useQuery_spread_options
      split: option.splits)

theorem single_entity_hooks_enabled_witness:
  "useQuery (useLot (Finite 0) None) = None \<and>
   useQuery (useAuction (Finite 0) None) = None \<and>
   useQuery (useHouse (Finite 0) None) = None \<and>
   useQuery (useLot (Finite 7) None) = Some (lots_getById (Finite 7)) \<and>
   useQuery (useAuction (Finite 7) None) = Some (auctions_getById (Finite 7)) \<and>
   useQuery (useHouse (Finite 7) None) = Some (houses_getById (Finite 7))"
  using single_entity_hooks_enabled [of "Finite 0" None]
    single_entity_hooks_enabled [of "Finite 7" None]
  by (simp add: options_enabled_def)


section \<open>Properties of the store\<close>

lemma check_constraints_Inr:
  "check_constraints db = Inr db' \<Longrightarrow> db' = db"
  by (simp add: check_constraints_def split: if_splits)

lemma check_constraints_keys:
  assumes "check_constraints db = Inr db'"
  shows "auctions_house_id_external_id_key (auctions db')"
    and "lots_auction_id_lot_number_key (lots db')"
    and "list_all scraping_logs_status_check (scraping_logs db')"
  using assms by (simp_all add: check_constraints_def split: if_splits)

lemma execute_checked:
  "execute st now db = Inr db' \<Longrightarrow> check_constraints db' = Inr db'"
  by (cases st)
    (auto simp: insert_auction_def update_auctions_def delete_auctions_def insert_lot_def
      update_lots_def delete_lots_def insert_artist_def insert_log_def update_logs_def Let_def
      dest: check_constraints_Inr)

lemma check_constraints_empty: "check_constraints empty_database = Inr empty_database"
  by (simp add: check_constraints_def empty_database_def auctions_house_id_external_id_key_def
      lots_auction_id_lot_number_key_def lots_auction_id_fkey_def lots_artist_id_fkey_def)

lemma run_statements_checked:
  "check_constraints db = Inr db \<Longrightarrow>
   check_constraints (run_statements stmts db) = Inr (run_statements stmts db)"
proof (induction stmts arbitrary: db)
  case Nil
  then show ?case by simp
next
  case (Cons p stmts)
  obtain st now where p: "p = (st, now)" by (cases p)
  show ?case
  proof (cases "execute st now db")
    case (Inl e)
    with Cons p show ?thesis by simp
  next
    case (Inr db')
    then have "check_constraints db' = Inr db'" by (rule execute_checked)
    with Cons.IH Inr p show ?thesis by simp
  qed
qed

lemma distinct_map_filter_at_most_one:
  "distinct (List.map_filter f xs) \<Longrightarrow> length (filter (\<lambda>x. f x = Some k) xs) \<le> 1"
proof (induction xs)
  case Nil
  then show ?case by simp
next
  case (Cons x xs)
  show ?case
  proof (cases "f x")
    case None
    with Cons show ?thesis by simp
  next
    case (Some k')
    with Cons.prems have d: "distinct (List.map_filter f xs)" and n: "k' \<notin> set (List.map_filter f xs)"
      by simp_all
    show ?thesis
    proof (cases "k' = k")
      case True
      with n have "filter (\<lambda>x. f x = Some k) xs = []"
        by (force simp: filter_empty_conv List.map_filter_def image_iff)
      with Some True show ?thesis by simp
    next
      case False
      with Some Cons.IH d show ?thesis by simp
    qed
  qed
qed

lemma distinct_map_at_most_one:
  "distinct (map f xs) \<Longrightarrow> length (filter (\<lambda>x. f x = k) xs) \<le> 1"
  by (induction xs) (force simp: filter_empty_conv image_iff)+

text \<open>
  C1: whatever statements reach the store, in whatever interleaving of the jobs that
  issue them, at most one auction row carries a given pair of house id and external id,
  and at most one lot row a given pair of auction id and lot number. (A pair has an
  external id; rows whose \<open>external_id\<close> is \<open>NULL\<close> have no natural key.)
\<close>

theorem natural_key_unique:
  "length (filter (\<lambda>r. a_house_id r = h \<and> a_external_id r = Some e)
             (auctions (run_statements stmts empty_database))) \<le> 1 \<and>
   length (filter (\<lambda>l. l_auction_id l = a \<and> l_lot_number l = n)
             (lots (run_statements stmts empty_database))) \<le> 1"
proof -
  let ?db = "run_statements stmts empty_database"
  have c: "check_constraints ?db = Inr ?db"
    by (rule run_statements_checked) (rule check_constraints_empty)
  have "distinct (List.map_filter auction_key (auctions ?db))"
    using check_constraints_keys(1) [OF c] by (simp add: auctions_house_id_external_id_key_def)
  then have "length (filter (\<lambda>r. auction_key r = Some (h, e)) (auctions ?db)) \<le> 1"
    by (rule distinct_map_filter_at_most_one)
  moreover have "(\<lambda>r::auction_row. auction_key r = Some (h, e))
      = (\<lambda>r. a_house_id r = h \<and> a_external_id r = Some e)"
    by (auto simp: auction_key_def fun_eq_iff)
  moreover have "distinct (map lot_key (lots ?db))"
    using check_constraints_keys(2) [OF c] by (simp add: lots_auction_id_lot_number_key_def)
  then have "length (filter (\<lambda>l. lot_key l = (a, n)) (lots ?db)) \<le> 1"
    by (rule distinct_map_at_most_one)
  moreover have "(\<lambda>l::lot_row. lot_key l = (a, n)) = (\<lambda>l. l_auction_id l = a \<and> l_lot_number l = n)"
    by (auto simp: lot_key_def fun_eq_iff)
  ultimately show ?thesis by simp
qed


section \<open>Properties of the run ledger\<close>

text \<open>The definitions that evaluate a statement on a concrete store.\<close>

lemmas store_eval =
  insert_log_def insert_auction_def insert_lot_def insert_artist_def update_logs_def
  update_auctions_def update_lots_def Let_def check_constraints_def
  scraping_logs_status_check_def auctions_status_check_def auctions_auction_type_check_def
  check_in_def auctions_house_id_external_id_key_def lots_auction_id_lot_number_key_def
  lots_auction_id_fkey_def lots_artist_id_fkey_def auction_key_def lot_key_def
  log_values.defs log_row.defs auction_values.defs auction_row.defs lot_values.defs
  lot_row.defs artist_values.defs artist_row.defs empty_database_def
  update_auctions_updated_at_def update_lots_updated_at_def







section \<open>Properties of artist resolution\<close>

text \<open>
  C8: resolution first looks for an existing record whose normalized name matches, and
  returns it without touching the store; only when none matches does it create a record,
  and the record it creates has \<open>verified = FALSE\<close>, the column's default.
\<close>

theorem resolve_artist_unverified:
  "(find (\<lambda>r. nn (r_name r) = nn raw) (artists db) = Some r
      \<longrightarrow> resolve_artist nn raw now db = Inr (r_id r, db)) \<and>
   (find (\<lambda>r. nn (r_name r) = nn raw) (artists db) = None \<and>
    resolve_artist nn raw now db = Inr (i, db')
      \<longrightarrow> artists db' =
            artists db @
              [artist_values.extend (artist_defaults (nn raw))
                 (artist_row.fields i (Some now) (Some now))] \<and>
          r_verified (last (artists db')) = Some False \<and>
          r_name (last (artists db')) = nn raw \<and>
          r_id (last (artists db')) = i)"
  by (auto simp: resolve_artist_def insert_artist_def Let_def artist_defaults_def
      artist_values.defs artist_row.defs split: sum.splits dest!: check_constraints_Inr)

theorem resolve_artist_unverified_witness:
  "resolve_artist (filter (\<lambda>c. c \<noteq> CHR '' '')) ''Frida  Kahlo'' 5 empty_database
     = Inr (1, empty_database\<lparr>artists :=
          [artist_values.extend (artist_defaults ''FridaKahlo'')
             (artist_row.fields 1 (Some 5) (Some 5))], artists_id_seq := 1\<rparr>) \<and>
   map r_verified (artists (snd (projr
     (resolve_artist (filter (\<lambda>c. c \<noteq> CHR '' '')) ''Frida  Kahlo'' 5 empty_database))))
     = [Some False] \<and>
   resolve_artist (filter (\<lambda>c. c \<noteq> CHR '' '')) ''Frida Kahlo'' 9
     (empty_database\<lparr>artists :=
          [artist_values.extend (artist_defaults ''FridaKahlo'')
             (artist_row.fields 1 (Some 5) (Some 5))], artists_id_seq := 1\<rparr>)
     = Inr (1, empty_database\<lparr>artists :=
          [artist_values.extend (artist_defaults ''FridaKahlo'')
             (artist_row.fields 1 (Some 5) (Some 5))], artists_id_seq := 1\<rparr>)"
  using resolve_artist_unverified [of "filter (\<lambda>c. c \<noteq> CHR '' '')" "''Frida  Kahlo''"
      empty_database
      "artist_values.extend (artist_defaults ''FridaKahlo'')
             (artist_row.fields 1 (Some 5) (Some 5))" 5 1
      "empty_database\<lparr>artists :=
          [artist_values.extend (artist_defaults ''FridaKahlo'')
             (artist_row.fields 1 (Some 5) (Some 5))], artists_id_seq := 1\<rparr>"]
    resolve_artist_unverified [of "filter (\<lambda>c. c \<noteq> CHR '' '')" "''Frida Kahlo''"
      "empty_database\<lparr>artists :=
          [artist_values.extend (artist_defaults ''FridaKahlo'')
             (artist_row.fields 1 (Some 5) (Some 5))], artists_id_seq := 1\<rparr>"
      "artist_values.extend (artist_defaults ''FridaKahlo'')
             (artist_row.fields 1 (Some 5) (Some 5))" 9 1 empty_database]
  by (simp add: resolve_artist_def artist_defaults_def store_eval)


section \<open>Properties of scheduling\<close>










section \<open>Properties of the upsert engine\<close>

lemma check_constraints_pkeys:
  assumes "check_constraints db = Inr db'"
  shows "distinct (map a_id (auctions db))" and "distinct (map l_id (lots db))"
  using assms by (simp_all add: check_constraints_def split: if_splits)

lemma distinct_map_filter_eq:
  "distinct (map f xs) \<Longrightarrow> x \<in> set xs \<Longrightarrow> filter (\<lambda>y. f y = f x) xs = [x]"
proof (induction xs)
  case Nil
  then show ?case by simp
next
  case (Cons y ys)
  show ?case
  proof (cases "y = x")
    case True
    with Cons.prems have "filter (\<lambda>y. f y = f x) ys = []"
      by (force simp: filter_empty_conv image_iff)
    with True show ?thesis by simp
  next
    case False
    with Cons.prems have "x \<in> set ys" and "f y \<noteq> f x"
      by (auto simp: image_iff)
    with Cons show ?thesis by simp
  qed
qed

lemma upsert_auction_created:
  assumes "find_auction k db = None"
    and "upsert_auction k v now db = Inr (rep, i, db')"
  shows "rep = Created"
    and "auctions db' = auctions db @
           [auction_values.extend (v\<lparr>a_house_id := fst k, a_external_id := Some (snd k)\<rparr>)
              (auction_row.fields i (Some now) (Some now))]"
    and "lots db' = lots db"
  using assms
  by (auto simp: upsert_auction_def insert_auction_def Let_def split: sum.splits
      dest!: check_constraints_Inr)

lemma upsert_auction_updated:
  assumes f: "find_auction k db = Some r"
    and u: "upsert_auction k v now db = Inr (rep, i, db')"
  shows "rep = Updated" and "i = a_id r"
    and "auctions db' =
           map (\<lambda>x. if a_id x = a_id r then update_auctions_updated_at now (overwrite_auction v x) else x)
             (auctions db)"
    and "filter (\<lambda>x. a_id x = a_id r) (auctions db) = [r]"
    and "lots db' = lots db"
proof -
  let ?new = "db\<lparr>auctions :=
      map (\<lambda>x. if a_id x = a_id r then update_auctions_updated_at now (overwrite_auction v x) else x)
        (auctions db)\<rparr>"
  from f u have c: "check_constraints ?new = Inr db'" and "rep = Updated" and "i = a_id r"
    by (auto simp: upsert_auction_def update_auctions_def split: sum.splits)
  then show "rep = Updated" and "i = a_id r" by simp_all
  from c have eq: "db' = ?new" by (rule check_constraints_Inr)
  then show "auctions db' =
           map (\<lambda>x. if a_id x = a_id r then update_auctions_updated_at now (overwrite_auction v x) else x)
             (auctions db)"
    and "lots db' = lots db" by simp_all
  have "map a_id (auctions ?new) = map a_id (auctions db)"
    by (simp add: update_auctions_updated_at_def overwrite_auction_def comp_def)
  with check_constraints_pkeys(1) [OF c] have "distinct (map a_id (auctions db))"
    by (simp only:)
  moreover from f have "r \<in> set (auctions db)"
    by (auto simp: find_auction_def find_Some_iff)
  ultimately show "filter (\<lambda>x. a_id x = a_id r) (auctions db) = [r]"
    by (rule distinct_map_filter_eq)
qed

lemma touched_auction_fields:
  fixes r :: auction_row and v :: auction_values and now :: timestamp
  defines "r' \<equiv> update_auctions_updated_at now (overwrite_auction v r)"
  shows "a_id r' = a_id r \<and> a_created_at r' = a_created_at r \<and>
         a_house_id r' = a_house_id r \<and> a_external_id r' = a_external_id r \<and>
         a_description r' = a_description r \<and> a_location r' = a_location r \<and>
         a_auction_type r' = a_auction_type r \<and> a_slug r' = a_slug r \<and>
         a_currency r' = a_currency r \<and> a_sale_rate r' = a_sale_rate r \<and>
         a_title r' = a_title v \<and> a_start_date r' = a_start_date v \<and>
         a_end_date r' = a_end_date v \<and> a_exhibition_start r' = a_exhibition_start v \<and>
         a_exhibition_end r' = a_exhibition_end v \<and> a_status r' = a_status v \<and>
         a_total_lots r' = a_total_lots v \<and> a_total_estimate_min r' = a_total_estimate_min v \<and>
         a_total_estimate_max r' = a_total_estimate_max v \<and>
         a_total_realized r' = a_total_realized v \<and> a_updated_at r' = Some now"
  by (simp add: r'_def update_auctions_updated_at_def overwrite_auction_def)

lemma upsert_lot_created:
  assumes "find_lot k db = None"
    and "upsert_lot k v now db = Inr (rep, i, db')"
  shows "rep = Created"
    and "lots db' = lots db @
           [lot_values.extend (v\<lparr>l_auction_id := fst k, l_lot_number := snd k\<rparr>)
              (lot_row.fields i (Some now) (Some now))]"
    and "auctions db' = auctions db"
  using assms
  by (auto simp: upsert_lot_def insert_lot_def Let_def split: sum.splits
      dest!: check_constraints_Inr)

lemma upsert_lot_updated:
  assumes f: "find_lot k db = Some l"
    and u: "upsert_lot k v now db = Inr (rep, i, db')"
  shows "rep = Updated" and "i = l_id l"
    and "lots db' =
           map (\<lambda>x. if l_id x = l_id l then update_lots_updated_at now (overwrite_lot v x) else x)
             (lots db)"
    and "filter (\<lambda>x. l_id x = l_id l) (lots db) = [l]"
    and "auctions db' = auctions db"
proof -
  let ?new = "db\<lparr>lots :=
      map (\<lambda>x. if l_id x = l_id l then update_lots_updated_at now (overwrite_lot v x) else x)
        (lots db)\<rparr>"
  from f u have c: "check_constraints ?new = Inr db'" and "rep = Updated" and "i = l_id l"
    by (auto simp: upsert_lot_def update_lots_def split: sum.splits)
  then show "rep = Updated" and "i = l_id l" by simp_all
  from c have eq: "db' = ?new" by (rule check_constraints_Inr)
  then show "lots db' =
           map (\<lambda>x. if l_id x = l_id l then update_lots_updated_at now (overwrite_lot v x) else x)
             (lots db)"
    and "auctions db' = auctions db" by simp_all
  have "map l_id (lots ?new) = map l_id (lots db)"
    by (simp add: update_lots_updated_at_def overwrite_lot_def comp_def lot_values.defs lot_row.defs)
  with check_constraints_pkeys(2) [OF c] have "distinct (map l_id (lots db))"
    by (simp only:)
  moreover from f have "l \<in> set (lots db)"
    by (auto simp: find_lot_def find_Some_iff)
  ultimately show "filter (\<lambda>x. l_id x = l_id l) (lots db) = [l]"
    by (rule distinct_map_filter_eq)
qed

lemma touched_lot_fields:
  fixes l :: lot_row and v :: lot_values and now :: timestamp
  defines "l' \<equiv> update_lots_updated_at now (overwrite_lot v l)"
  shows "l_id l' = l_id l \<and> l_created_at l' = l_created_at l \<and>
         l_auction_id l' = l_auction_id l \<and> l_lot_number l' = l_lot_number l \<and>
         l_title l' = l_title v \<and> l_updated_at l' = Some now"
  by (simp add: l'_def update_lots_updated_at_def overwrite_lot_def lot_values.defs lot_row.defs)


text \<open>The definitions that evaluate a task on a concrete adapter.\<close>

lemmas job_eval =
  scrape_house_data_def save_auction_def normalize_auction_def normalize_lot_def
  upsert_auction_def upsert_lot_def find_auction_def find_lot_def overwrite_auction_def
  overwrite_lot_def log_scraping_success_def log_scraping_error_def no_tallies_def
  raw_auction_def source_x_def five_auctions_def one_lot_def

text \<open>
  C5: an upsert whose natural key matches no record inserts the candidate and reports
  \<open>Created\<close>. An upsert whose key matches a record reports \<open>Updated\<close> and rewrites that
  record alone: its designated mutable fields take the candidate's values and the store's
  trigger sets \<open>updated_at\<close>, while the internal id, \<open>created_at\<close>, the key and the other
  columns stay as they were. The same holds for lots.
\<close>

theorem upsert_frame:
  "(find_auction k db = None \<and> upsert_auction k v now db = Inr (rep, i, db')
      \<longrightarrow> rep = Created \<and>
          auctions db' = auctions db @
            [auction_values.extend (v\<lparr>a_house_id := fst k, a_external_id := Some (snd k)\<rparr>)
               (auction_row.fields i (Some now) (Some now))]) \<and>
   (find_auction k db = Some r \<and> upsert_auction k v now db = Inr (rep, i, db')
      \<longrightarrow> rep = Updated \<and> i = a_id r \<and>
          filter (\<lambda>x. a_id x = a_id r) (auctions db) = [r] \<and>
          auctions db' =
            map (\<lambda>x. if a_id x = a_id r
                      then update_auctions_updated_at now (overwrite_auction v x) else x)
              (auctions db) \<and>
          (let r' = update_auctions_updated_at now (overwrite_auction v r)
           in a_id r' = a_id r \<and> a_created_at r' = a_created_at r \<and>
              a_house_id r' = a_house_id r \<and> a_external_id r' = a_external_id r \<and>
              a_description r' = a_description r \<and> a_location r' = a_location r \<and>
              a_auction_type r' = a_auction_type r \<and> a_slug r' = a_slug r \<and>
              a_currency r' = a_currency r \<and> a_sale_rate r' = a_sale_rate r \<and>
              a_title r' = a_title v \<and> a_start_date r' = a_start_date v \<and>
              a_end_date r' = a_end_date v \<and> a_exhibition_start r' = a_exhibition_start v \<and>
              a_exhibition_end r' = a_exhibition_end v \<and> a_status r' = a_status v \<and>
              a_total_lots r' = a_total_lots v \<and>
              a_total_estimate_min r' = a_total_estimate_min v \<and>
              a_total_estimate_max r' = a_total_estimate_max v \<and>
              a_total_realized r' = a_total_realized v \<and> a_updated_at r' = Some now)) \<and>
   (find_lot kl db = None \<and> upsert_lot kl vl now db = Inr (rep, i, db')
      \<longrightarrow> rep = Created \<and>
          lots db' = lots db @
            [lot_values.extend (vl\<lparr>l_auction_id := fst kl, l_lot_number := snd kl\<rparr>)
               (lot_row.fields i (Some now) (Some now))]) \<and>
   (find_lot kl db = Some l \<and> upsert_lot kl vl now db = Inr (rep, i, db')
      \<longrightarrow> rep = Updated \<and> i = l_id l \<and>
          filter (\<lambda>x. l_id x = l_id l) (lots db) = [l] \<and>
          lots db' =
            map (\<lambda>x. if l_id x = l_id l
                      then update_lots_updated_at now (overwrite_lot vl x) else x)
              (lots db) \<and>
          (let l' = update_lots_updated_at now (overwrite_lot vl l)
           in l_id l' = l_id l \<and> l_created_at l' = l_created_at l \<and>
              l_auction_id l' = l_auction_id l \<and> l_lot_number l' = l_lot_number l \<and>
              l_title l' = l_title vl \<and> l_updated_at l' = Some now))"
proof -
  have 1: "rep = Created \<and>
          auctions db' = auctions db @
            [auction_values.extend (v\<lparr>a_house_id := fst k, a_external_id := Some (snd k)\<rparr>)
               (auction_row.fields i (Some now) (Some now))]"
    if "find_auction k db = None" "upsert_auction k v now db = Inr (rep, i, db')"
    using upsert_auction_created [OF that] by simp
  have 2: "rep = Updated \<and> i = a_id r \<and>
          filter (\<lambda>x. a_id x = a_id r) (auctions db) = [r] \<and>
          auctions db' =
            map (\<lambda>x. if a_id x = a_id r
                      then update_auctions_updated_at now (overwrite_auction v x) else x)
              (auctions db)"
    if "find_auction k db = Some r" "upsert_auction k v now db = Inr (rep, i, db')"
    using upsert_auction_updated [OF that] by simp
  have 3: "rep = Created \<and>
          lots db' = lots db @
            [lot_values.extend (vl\<lparr>l_auction_id := fst kl, l_lot_number := snd kl\<rparr>)
               (lot_row.fields i (Some now) (Some now))]"
    if "find_lot kl db = None" "upsert_lot kl vl now db = Inr (rep, i, db')"
    using upsert_lot_created [OF that] by simp
  have 4: "rep = Updated \<and> i = l_id l \<and>
          filter (\<lambda>x. l_id x = l_id l) (lots db) = [l] \<and>
          lots db' =
            map (\<lambda>x. if l_id x = l_id l
                      then update_lots_updated_at now (overwrite_lot vl x) else x)
              (lots db)"
    if "find_lot kl db = Some l" "upsert_lot kl vl now db = Inr (rep, i, db')"
    using upsert_lot_updated [OF that] by simp
  from 1 2 3 4 touched_auction_fields [of now v r] touched_lot_fields [of now vl l]
  show ?thesis unfolding Let_def by blast
qed


theorem upsert_frame_witness:
  "fst (projr (upsert_auction (1, ''101'')
        (snd (projr (normalize_auction 1 (raw_auction ''101'' (Some ''Spring Sale''))))) 5
        empty_database)) = Created \<and>
   fst (projr (upsert_auction (1, ''101'')
        (snd (projr (normalize_auction 1 (raw_auction ''101'' (Some ''Spring Sale (Updated)''))))) 6
        (fst (scrape_house_data (source_x ''Spring Sale'') ''x'' 5 empty_database)))) = Updated \<and>
   fst (projr (upsert_lot (1, ''7'') (snd (normalize_lot 1 one_lot)) 7
        (fst (scrape_house_data (source_x ''Spring Sale'') ''x'' 5 empty_database)))) = Created \<and>
   fst (projr (upsert_lot (1, ''7'') (snd (normalize_lot 1 one_lot)) 8
        (snd (snd (projr (upsert_lot (1, ''7'') (snd (normalize_lot 1 one_lot)) 7
          (fst (scrape_house_data (source_x ''Spring Sale'') ''x'' 5 empty_database)))))))) = Updated"
proof -
  let ?v1 = "snd (projr (normalize_auction 1 (raw_auction ''101'' (Some ''Spring Sale''))))"
  let ?v2 = "snd (projr (normalize_auction 1 (raw_auction ''101'' (Some ''Spring Sale (Updated)''))))"
  let ?vl = "snd (normalize_lot 1 one_lot)"
  let ?db1 = "fst (scrape_house_data (source_x ''Spring Sale'') ''x'' 5 empty_database)"
  let ?X1 = "upsert_auction (1, ''101'') ?v1 5 empty_database"
  let ?X2 = "upsert_auction (1, ''101'') ?v2 6 ?db1"
  let ?Y1 = "upsert_lot (1, ''7'') ?vl 7 ?db1"
  let ?Y2 = "upsert_lot (1, ''7'') ?vl 8 (snd (snd (projr ?Y1)))"
  have "\<exists>rep i db'. ?X1 = Inr (rep, i, db')"
    by (simp add: job_eval store_eval)
  then obtain rep1 i1 db1 where x1: "?X1 = Inr (rep1, i1, db1)" by blast
  have f1: "find_auction (1, ''101'') empty_database = None"
    by (simp add: find_auction_def empty_database_def)
  from upsert_frame [THEN conjunct1, rule_format, OF conjI [OF f1 x1]]
  have "rep1 = Created" by simp
  with x1 have 1: "fst (projr ?X1) = Created" by simp
  have "\<exists>rep i db'. ?X2 = Inr (rep, i, db')"
    by (simp add: job_eval store_eval)
  then obtain rep2 i2 db2 where x2: "?X2 = Inr (rep2, i2, db2)" by blast
  have "\<exists>r. find_auction (1, ''101'') ?db1 = Some r"
    by (simp add: job_eval store_eval)
  then obtain r where f2: "find_auction (1, ''101'') ?db1 = Some r" by blast
  from upsert_frame [THEN conjunct2, THEN conjunct1, rule_format, OF conjI [OF f2 x2]]
  have "rep2 = Updated" by simp
  with x2 have 2: "fst (projr ?X2) = Updated" by simp
  have "\<exists>rep i db'. ?Y1 = Inr (rep, i, db')"
    by (simp add: job_eval store_eval)
  then obtain rep3 i3 db3 where y1: "?Y1 = Inr (rep3, i3, db3)" by blast
  have g1: "find_lot (1, ''7'') ?db1 = None"
    by (simp add: job_eval store_eval)
  from upsert_frame [THEN conjunct2, THEN conjunct2, THEN conjunct1, rule_format,
      OF conjI [OF g1 y1]]
  have "rep3 = Created" by simp
  with y1 have 3: "fst (projr ?Y1) = Created" by simp
  have "\<exists>rep i db'. ?Y2 = Inr (rep, i, db')"
    by (simp add: job_eval store_eval)
  then obtain rep4 i4 db4 where y2: "?Y2 = Inr (rep4, i4, db4)" by blast
  have "\<exists>l. find_lot (1, ''7'') (snd (snd (projr ?Y1))) = Some l"
    by (simp add: job_eval store_eval)
  then obtain l where g2: "find_lot (1, ''7'') (snd (snd (projr ?Y1))) = Some l" by blast
  from upsert_frame [THEN conjunct2, THEN conjunct2, THEN conjunct2, rule_format,
      OF conjI [OF g2 y2]]
  have "rep4 = Updated" by simp
  with y2 have 4: "fst (projr ?Y2) = Updated" by simp
  from 1 2 3 4 show ?thesis by blast
qed

section \<open>Properties of the scraping task\<close>

lemma scrape_loop_append:
  "scrape_loop ad (pre @ rest) now db t =
     (case scrape_loop ad pre now db t of
        (db1, t1, None) \<Rightarrow> scrape_loop ad rest now db1 t1
      | (db1, t1, Some e) \<Rightarrow> (db1, t1, Some e))"
  by (induction pre arbitrary: db t) (auto split: sum.splits option.splits prod.splits)

lemma save_auction_invalid:
  "normalize_auction house raw = Inl e \<Longrightarrow> save_auction house raw now db = Inl e"
  by (simp add: save_auction_def)

text \<open>
  C3, as stated, fails: of five raw auctions the third has no title. The task is logged
  failed, with two records processed, and the store holds the auctions 1 and 2 only.
\<close>

theorem five_auctions_counterexample:
  "snd (scrape_house_data five_auctions ''x'' 5 empty_database)
     = \<lparr>o_house = ''x'', o_status = Failed ''title'',
        o_tallies = \<lparr>processed = 2, created = 2, updated = 0\<rparr>\<rparr> \<and>
   map a_external_id (auctions (fst (scrape_house_data five_auctions ''x'' 5 empty_database)))
     = [Some ''1'', Some ''2'']"
  by (simp add: job_eval store_eval)

text \<open>
  C3, amended: the task has one handler around its whole body. When an item fails
  validation, the task is logged failed with that item's error; the items before it are
  committed and counted, and neither the failing item nor any item after it is
  processed. A failure of the adapter's listing call fails the task with nothing
  processed. The task is logged completed exactly when the listing call and the
  processing of every item raise nothing.
\<close>

theorem item_failure_fails_job:
  "(scrape_auctions ad = Inr (pre @ bad # post) \<and>
    scrape_loop ad pre now db no_tallies = (db1, t1, None) \<and>
    normalize_auction (house_id ad) bad = Inl e
      \<longrightarrow> scrape_house_data ad house now db = (db1, log_scraping_error house (str e) t1)) \<and>
   (scrape_auctions ad = Inl e
      \<longrightarrow> scrape_house_data ad house now db = (db, log_scraping_error house (str e) no_tallies)) \<and>
   (o_status (snd (scrape_house_data ad house now db)) = Completed
      \<longleftrightarrow> (\<exists>items. scrape_auctions ad = Inr items \<and>
            snd (snd (scrape_loop ad items now db no_tallies)) = None))"
proof -
  have 1: "scrape_house_data ad house now db = (db1, log_scraping_error house (str e) t1)"
    if "scrape_auctions ad = Inr (pre @ bad # post)"
      and "scrape_loop ad pre now db no_tallies = (db1, t1, None)"
      and "normalize_auction (house_id ad) bad = Inl e"
    using that
    by (simp add: scrape_house_data_def scrape_loop_append save_auction_invalid)
  have 2: "scrape_house_data ad house now db = (db, log_scraping_error house (str e) no_tallies)"
    if "scrape_auctions ad = Inl e"
    using that by (simp add: scrape_house_data_def)
  have 3: "o_status (snd (scrape_house_data ad house now db)) = Completed
      \<longleftrightarrow> (\<exists>items. scrape_auctions ad = Inr items \<and>
            snd (snd (scrape_loop ad items now db no_tallies)) = None)"
    by (auto simp: scrape_house_data_def log_scraping_success_def log_scraping_error_def
        split: sum.splits option.splits prod.splits)
  from 1 2 3 show ?thesis by blast
qed

theorem item_failure_fails_job_witness:
  "o_status (snd (scrape_house_data five_auctions ''x'' 5 empty_database)) = Failed ''title'' \<and>
   map a_external_id (auctions (fst (scrape_house_data five_auctions ''x'' 5 empty_database)))
     = [Some ''1'', Some ''2''] \<and>
   scrape_house_data (five_auctions\<lparr>scrape_auctions := Inl (RequestException ''timeout'')\<rparr>)
     ''x'' 5 empty_database
     = (empty_database, log_scraping_error ''x'' ''timeout'' no_tallies) \<and>
   o_status (snd (scrape_house_data (source_x ''Spring Sale'') ''x'' 5 empty_database)) = Completed"
proof -
  let ?pre = "[raw_auction ''1'' (Some ''One''), raw_auction ''2'' (Some ''Two'')]"
  let ?post = "[raw_auction ''4'' (Some ''Four''), raw_auction ''5'' (Some ''Five'')]"
  have a: "scrape_auctions five_auctions = Inr (?pre @ raw_auction ''3'' None # ?post)"
    by (simp add: five_auctions_def)
  have "\<exists>db1 t1. scrape_loop five_auctions ?pre 5 empty_database no_tallies = (db1, t1, None)"
    by (simp add: job_eval store_eval)
  then obtain db1 t1
    where b: "scrape_loop five_auctions ?pre 5 empty_database no_tallies = (db1, t1, None)"
    by blast
  have c: "normalize_auction (house_id five_auctions) (raw_auction ''3'' None)
      = Inl (ValidationError ''title'')"
    by (simp add: job_eval)
  from item_failure_fails_job [THEN conjunct1, rule_format, OF conjI [OF a conjI [OF b c]]]
  have r: "scrape_house_data five_auctions ''x'' 5 empty_database
      = (db1, log_scraping_error ''x'' (str (ValidationError ''title'')) t1)" .
  have "map a_external_id
      (auctions (fst (scrape_loop five_auctions ?pre 5 empty_database no_tallies)))
      = [Some ''1'', Some ''2'']"
    by (simp add: job_eval store_eval)
  with b have "map a_external_id (auctions db1) = [Some ''1'', Some ''2'']"
    by simp
  with r have 1: "o_status (snd (scrape_house_data five_auctions ''x'' 5 empty_database))
      = Failed ''title''"
    and 2: "map a_external_id
      (auctions (fst (scrape_house_data five_auctions ''x'' 5 empty_database)))
      = [Some ''1'', Some ''2'']"
    by (simp_all add: log_scraping_error_def)
  have "scrape_auctions (five_auctions\<lparr>scrape_auctions := Inl (RequestException ''timeout'')\<rparr>)
      = Inl (RequestException ''timeout'')"
    by simp
  from item_failure_fails_job [THEN conjunct2, THEN conjunct1, rule_format, OF this]
  have 3: "scrape_house_data (five_auctions\<lparr>scrape_auctions := Inl (RequestException ''timeout'')\<rparr>)
     ''x'' 5 empty_database = (empty_database, log_scraping_error ''x'' ''timeout'' no_tallies)"
    by simp
  have "\<exists>items. scrape_auctions (source_x ''Spring Sale'') = Inr items \<and>
      snd (snd (scrape_loop (source_x ''Spring Sale'') items 5 empty_database no_tallies)) = None"
    by (simp add: job_eval store_eval)
  with item_failure_fails_job [THEN conjunct2, THEN conjunct2,
      of "source_x ''Spring Sale''" "''x''" 5 empty_database]
  have 4: "o_status (snd (scrape_house_data (source_x ''Spring Sale'') ''x'' 5 empty_database))
      = Completed"
    by blast
  from 1 2 3 4 show ?thesis by blast
qed

section \<open>Properties of second runs\<close>

lemma find_append_case:
  "find P (xs @ ys) = (case find P xs of None \<Rightarrow> find P ys | Some x \<Rightarrow> Some x)"
  by (induction xs) auto

lemma find_map_invariant:
  "(\<And>x. P (f x) = P x) \<Longrightarrow> find P (map f xs) = map_option f (find P xs)"
  by (induction xs) auto

lemma persists_refl: "persists db db"
  by (simp add: persists_def)

lemma persists_trans: "persists a b \<Longrightarrow> persists b c \<Longrightarrow> persists a c"
  unfolding persists_def by blast

lemma upsert_auction_persists:
  assumes u: "upsert_auction k v now db = Inr (rep, i, db')"
  shows "persists db db'" and "auction_id_of k db' = Some i"
    and "find_auction k db \<noteq> None \<Longrightarrow> rep = Updated"
proof -
  have "persists db db' \<and> auction_id_of k db' = Some i \<and>
      (find_auction k db \<noteq> None \<longrightarrow> rep = Updated)"
  proof (cases "find_auction k db")
    case None
    let ?row = "auction_values.extend (v\<lparr>a_house_id := fst k, a_external_id := Some (snd k)\<rparr>)
              (auction_row.fields i (Some now) (Some now))"
    from upsert_auction_created [OF None u]
    have a: "auctions db' = auctions db @ [?row]" and l: "lots db' = lots db" by simp_all
    have key: "auction_key ?row = Some k" and id: "a_id ?row = i"
      by (simp_all add: auction_key_def auction_values.defs auction_row.defs)
    have "auction_id_of k' db' = Some j" if "auction_id_of k' db = Some j" for k' j
      using that by (auto simp: auction_id_of_def find_auction_def a find_append_case)
    moreover have "find_lot k' db' = find_lot k' db" for k'
      by (simp add: find_lot_def l)
    moreover from None have "auction_id_of k db' = Some i"
      by (simp add: auction_id_of_def find_auction_def a find_append_case key id)
    ultimately show ?thesis using None by (simp add: persists_def)
  next
    case (Some r)
    let ?f = "\<lambda>x. if a_id x = a_id r
                then update_auctions_updated_at now (overwrite_auction v x) else x"
    from upsert_auction_updated [OF Some u]
    have rep: "rep = Updated" and i: "i = a_id r" and a: "auctions db' = map ?f (auctions db)"
      and l: "lots db' = lots db" by simp_all
    have key: "auction_key (?f x) = auction_key x" and id: "a_id (?f x) = a_id x" for x
      by (simp_all add: auction_key_def update_auctions_updated_at_def overwrite_auction_def)
    have "find (\<lambda>r. auction_key r = Some k') (map ?f (auctions db))
        = map_option ?f (find (\<lambda>r. auction_key r = Some k') (auctions db))" for k'
      by (rule find_map_invariant) (simp only: key)
    then have "auction_id_of k' db' = auction_id_of k' db" for k'
      by (simp add: auction_id_of_def find_auction_def a option.map_comp comp_def id
          del: if_split cong: if_cong)
    moreover have "find_lot k' db' = find_lot k' db" for k'
      by (simp add: find_lot_def l)
    moreover from Some i have "auction_id_of k db = Some i"
      by (simp add: auction_id_of_def)
    ultimately show ?thesis using rep by (simp add: persists_def)
  qed
  then show "persists db db'" and "auction_id_of k db' = Some i"
    and "find_auction k db \<noteq> None \<Longrightarrow> rep = Updated" by simp_all
qed

lemma upsert_lot_persists:
  assumes u: "upsert_lot k v now db = Inr (rep, i, db')"
  shows "persists db db'" and "find_lot k db' \<noteq> None"
    and "find_lot k db \<noteq> None \<Longrightarrow> rep = Updated"
proof -
  have "persists db db' \<and> find_lot k db' \<noteq> None \<and> (find_lot k db \<noteq> None \<longrightarrow> rep = Updated)"
  proof (cases "find_lot k db")
    case None
    let ?row = "lot_values.extend (v\<lparr>l_auction_id := fst k, l_lot_number := snd k\<rparr>)
              (lot_row.fields i (Some now) (Some now))"
    from upsert_lot_created [OF None u]
    have l: "lots db' = lots db @ [?row]" and a: "auctions db' = auctions db" by simp_all
    have key: "lot_key ?row = k"
      by (simp add: lot_key_def lot_values.defs lot_row.defs)
    have "find_lot k' db' \<noteq> None" if "find_lot k' db \<noteq> None" for k'
      using that by (auto simp: find_lot_def l find_append_case)
    moreover have "auction_id_of k' db' = auction_id_of k' db" for k'
      by (simp add: auction_id_of_def find_auction_def a)
    moreover from None have "find_lot k db' \<noteq> None"
      by (simp add: find_lot_def l find_append_case key)
    ultimately show ?thesis using None by (simp add: persists_def)
  next
    case (Some r)
    let ?f = "\<lambda>x. if l_id x = l_id r then update_lots_updated_at now (overwrite_lot v x) else x"
    from upsert_lot_updated [OF Some u]
    have rep: "rep = Updated" and l: "lots db' = map ?f (lots db)"
      and a: "auctions db' = auctions db" by simp_all
    have key: "lot_key (?f x) = lot_key x" for x
      by (simp add: lot_key_def update_lots_updated_at_def overwrite_lot_def
          lot_values.defs lot_row.defs)
    have "find (\<lambda>r. lot_key r = k') (map ?f (lots db))
        = map_option ?f (find (\<lambda>r. lot_key r = k') (lots db))" for k'
      by (rule find_map_invariant) (simp only: key)
    then have "find_lot k' db' \<noteq> None" if "find_lot k' db \<noteq> None" for k'
      using that by (simp add: find_lot_def l del: if_split cong: if_cong)
    moreover have "auction_id_of k' db' = auction_id_of k' db" for k'
      by (simp add: auction_id_of_def find_auction_def a)
    ultimately show ?thesis using rep Some by (simp add: persists_def)
  qed
  then show "persists db db'" and "find_lot k db' \<noteq> None"
    and "find_lot k db \<noteq> None \<Longrightarrow> rep = Updated" by simp_all
qed


lemma created_tally_Updated: "created (tally Updated t) = created t"
  by simp

lemma processed_tally: "processed (tally rep t) = Suc (processed t)"
  by (cases rep) simp_all

lemma balanced_tally:
  "processed t = created t + updated t \<Longrightarrow>
   processed (tally rep t) = created (tally rep t) + updated (tally rep t)"
  by (cases rep) simp_all

lemma fst_normalize_lot: "fst (normalize_lot auction_id raw) = (auction_id, ld_lot_number raw)"
  by (simp add: normalize_lot_def)

lemma normalize_auction_key:
  "normalize_auction house raw = Inr (k, v) \<Longrightarrow> \<exists>e. d_external_id raw = Some e \<and> k = (house, e)"
  by (auto simp: normalize_auction_def split: option.splits)

lemma save_lots_persists:
  "save_lots aid ls now db t = (db', t', err) \<Longrightarrow> persists db db'"
proof (induction ls arbitrary: db t)
  case Nil
  then show ?case by (simp add: persists_refl)
next
  case (Cons l ls)
  show ?case
  proof (cases "upsert_lot (fst (normalize_lot aid l)) (snd (normalize_lot aid l)) now db")
    case (Inl e)
    with Cons.prems show ?thesis by (simp add: persists_refl)
  next
    case (Inr res)
    obtain rep i db1 where res: "res = (rep, i, db1)" by (cases res)
    from Inr res have "persists db db1" by (simp add: upsert_lot_persists(1))
    moreover from Cons.prems Inr res have "persists db1 db'"
      by (auto intro: Cons.IH)
    ultimately show ?thesis by (rule persists_trans)
  qed
qed

lemma persists_lot: "persists db db' \<Longrightarrow> find_lot k db \<noteq> None \<Longrightarrow> find_lot k db' \<noteq> None"
  unfolding persists_def by blast

lemma persists_auction:
  "persists db db' \<Longrightarrow> auction_id_of k db = Some i \<Longrightarrow> auction_id_of k db' = Some i"
  unfolding persists_def by blast

lemma save_lots_stores:
  "save_lots aid ls now db t = (db', t', None) \<Longrightarrow>
   \<forall>l \<in> set ls. find_lot (aid, ld_lot_number l) db' \<noteq> None"
proof (induction ls arbitrary: db t)
  case Nil
  then show ?case by simp
next
  case (Cons l ls)
  from Cons.prems obtain rep i db1
    where u: "upsert_lot (fst (normalize_lot aid l)) (snd (normalize_lot aid l)) now db
        = Inr (rep, i, db1)"
      and r: "save_lots aid ls now db1 (tally rep t) = (db', t', None)"
    by (auto split: sum.splits)
  from u have "find_lot (aid, ld_lot_number l) db1 \<noteq> None"
    using upsert_lot_persists(2) [OF u] by (simp add: fst_normalize_lot)
  with save_lots_persists [OF r] have "find_lot (aid, ld_lot_number l) db' \<noteq> None"
    by (rule persists_lot)
  with Cons.IH [OF r] show ?case by simp
qed

lemma save_lots_known:
  "\<forall>l \<in> set ls. find_lot (aid, ld_lot_number l) db \<noteq> None \<Longrightarrow>
   save_lots aid ls now db t = (db', t', err) \<Longrightarrow> created t' = created t"
proof (induction ls arbitrary: db t)
  case Nil
  then show ?case by simp
next
  case (Cons l ls)
  show ?case
  proof (cases "upsert_lot (fst (normalize_lot aid l)) (snd (normalize_lot aid l)) now db")
    case (Inl e)
    with Cons.prems show ?thesis by simp
  next
    case (Inr res)
    obtain rep i db1 where res: "res = (rep, i, db1)" by (cases res)
    with Inr have u: "upsert_lot (fst (normalize_lot aid l)) (snd (normalize_lot aid l)) now db
        = Inr (rep, i, db1)" by simp
    from Cons.prems(1) have "find_lot (fst (normalize_lot aid l)) db \<noteq> None"
      by (simp add: fst_normalize_lot)
    then have rep: "rep = Updated" by (rule upsert_lot_persists(3) [OF u])
    have "\<forall>l \<in> set ls. find_lot (aid, ld_lot_number l) db1 \<noteq> None"
    proof
      fix la
      assume "la \<in> set ls"
      with Cons.prems(1) have "find_lot (aid, ld_lot_number la) db \<noteq> None"
        by (metis list.set_intros(2))
      with upsert_lot_persists(1) [OF u] show "find_lot (aid, ld_lot_number la) db1 \<noteq> None"
        by (rule persists_lot)
    qed
    moreover from Cons.prems(2) u have "save_lots aid ls now db1 (tally rep t) = (db', t', err)"
      by simp
    ultimately have "created t' = created (tally rep t)" by (rule Cons.IH)
    with rep show ?thesis by simp
  qed
qed

lemma save_lots_balanced:
  "save_lots aid ls now db t = (db', t', err) \<Longrightarrow> processed t = created t + updated t \<Longrightarrow>
   processed t' = created t' + updated t'"
proof (induction ls arbitrary: db t)
  case Nil
  then show ?case by simp
next
  case (Cons l ls)
  show ?case
  proof (cases "upsert_lot (fst (normalize_lot aid l)) (snd (normalize_lot aid l)) now db")
    case (Inl e)
    with Cons.prems show ?thesis by simp
  next
    case (Inr res)
    obtain rep i db1 where res: "res = (rep, i, db1)" by (cases res)
    with Cons.prems(1) Inr have "save_lots aid ls now db1 (tally rep t) = (db', t', err)"
      by simp
    then show ?thesis
      by (rule Cons.IH) (rule balanced_tally [OF Cons.prems(2)])
  qed
qed

lemma save_lots_processed:
  "save_lots aid ls now db t = (db', t', None) \<Longrightarrow> processed t' = processed t + length ls"
proof (induction ls arbitrary: db t)
  case Nil
  then show ?case by simp
next
  case (Cons l ls)
  from Cons.prems obtain rep i db1
    where r: "save_lots aid ls now db1 (tally rep t) = (db', t', None)"
    by (auto split: sum.splits)
  from Cons.IH [OF r] show ?case by (simp add: processed_tally)
qed


lemma save_auction_upserts:
  assumes "save_auction house x now db = Inr (rep, aid, db1)"
  obtains e v where "d_external_id x = Some e"
    and "upsert_auction (house, e) v now db = Inr (rep, aid, db1)"
proof (cases "normalize_auction house x")
  case (Inl e)
  with assms show ?thesis by (simp add: save_auction_def)
next
  case (Inr kv)
  obtain k v where kv: "kv = (k, v)" by (cases kv)
  from normalize_auction_key [of house x k v] Inr kv
  obtain e where "d_external_id x = Some e" and "k = (house, e)" by auto
  moreover from assms Inr kv have "upsert_auction k v now db = Inr (rep, aid, db1)"
    by (simp add: save_auction_def)
  ultimately show ?thesis using that by simp
qed

lemma scrape_loop_Cons_elim:
  assumes "scrape_loop ad (x # xs) now db t = (db', t', err)"
  obtains
    (invalid) e where "save_auction (house_id ad) x now db = Inl e"
      and "db' = db" and "t' = t" and "err = Some e"
  | (no_url) rep aid where "save_auction (house_id ad) x now db = Inr (rep, aid, db')"
      and "d_url x = None" and "t' = tally rep t" and "err = Some (KeyError ''url'')"
  | (no_lots) rep aid url e where "save_auction (house_id ad) x now db = Inr (rep, aid, db')"
      and "d_url x = Some url" and "scrape_lots ad url = Inl e"
      and "t' = tally rep t" and "err = Some e"
  | (lot_failed) rep aid db1 url ls e
    where "save_auction (house_id ad) x now db = Inr (rep, aid, db1)"
      and "d_url x = Some url" and "scrape_lots ad url = Inr ls"
      and "save_lots aid ls now db1 (tally rep t) = (db', t', Some e)" and "err = Some e"
  | (continue) rep aid db1 url ls db2 t2
    where "save_auction (house_id ad) x now db = Inr (rep, aid, db1)"
      and "d_url x = Some url" and "scrape_lots ad url = Inr ls"
      and "save_lots aid ls now db1 (tally rep t) = (db2, t2, None)"
      and "scrape_loop ad xs now db2 t2 = (db', t', err)"
proof (cases "save_auction (house_id ad) x now db")
  case (Inl e)
  with assms have "db' = db" and "t' = t" and "err = Some e" by simp_all
  with Inl show ?thesis by (rule invalid)
next
  case (Inr res)
  obtain rep aid db1 where res: "res = (rep, aid, db1)" by (cases res)
  with Inr have sa: "save_auction (house_id ad) x now db = Inr (rep, aid, db1)" by simp
  show ?thesis
  proof (cases "d_url x")
    case None
    with assms sa have "db' = db1" and "t' = tally rep t" and "err = Some (KeyError ''url'')"
      by simp_all
    with sa None show ?thesis by (simp add: no_url)
  next
    case (Some url)
    show ?thesis
    proof (cases "scrape_lots ad url")
      case (Inl e)
      with assms sa Some have "db' = db1" and "t' = tally rep t" and "err = Some e"
        by simp_all
      with sa Some Inl show ?thesis by (simp add: no_lots)
    next
      case ls: (Inr ls)
      obtain db2 t2 err2 where sl: "save_lots aid ls now db1 (tally rep t) = (db2, t2, err2)"
        by (cases "save_lots aid ls now db1 (tally rep t)")
      show ?thesis
      proof (cases err2)
        case None
        with assms sa Some ls sl have "scrape_loop ad xs now db2 t2 = (db', t', err)"
          by simp
        with sa Some ls sl None show ?thesis by (simp add: continue)
      next
        case e: (Some e)
        with assms sa Some ls sl have "db' = db2" and "t' = t2" and "err = Some e"
          by simp_all
        with sa Some ls sl e show ?thesis by (simp add: lot_failed)
      qed
    qed
  qed
qed

lemma scrape_loop_persists:
  "scrape_loop ad xs now db t = (db', t', err) \<Longrightarrow> persists db db'"
proof (induction xs arbitrary: db t)
  case Nil
  then show ?case by (simp add: persists_refl)
next
  case (Cons x xs)
  from Cons.prems show ?case
  proof (cases rule: scrape_loop_Cons_elim)
    case (invalid e)
    then show ?thesis by (simp add: persists_refl)
  next
    case (no_url rep aid)
    from no_url(1) show ?thesis
      by (rule save_auction_upserts) (rule upsert_auction_persists(1))
  next
    case (no_lots rep aid url e)
    from no_lots(1) show ?thesis
      by (rule save_auction_upserts) (rule upsert_auction_persists(1))
  next
    case (lot_failed rep aid db1 url ls e)
    from lot_failed(1) have "persists db db1"
      by (rule save_auction_upserts) (rule upsert_auction_persists(1))
    moreover from lot_failed(4) have "persists db1 db'" by (rule save_lots_persists)
    ultimately show ?thesis by (rule persists_trans)
  next
    case (continue rep aid db1 url ls db2 t2)
    from continue(1) have "persists db db1"
      by (rule save_auction_upserts) (rule upsert_auction_persists(1))
    moreover from continue(4) have "persists db1 db2" by (rule save_lots_persists)
    moreover from continue(5) have "persists db2 db'" by (rule Cons.IH)
    ultimately show ?thesis by (blast intro: persists_trans)
  qed
qed

lemma scrape_loop_balanced:
  "scrape_loop ad xs now db t = (db', t', err) \<Longrightarrow> processed t = created t + updated t \<Longrightarrow>
   processed t' = created t' + updated t'"
proof (induction xs arbitrary: db t)
  case Nil
  then show ?case by simp
next
  case (Cons x xs)
  from Cons.prems(1) show ?case
  proof (cases rule: scrape_loop_Cons_elim)
    case (invalid e)
    with Cons.prems(2) show ?thesis by simp
  next
    case (no_url rep aid)
    with balanced_tally [OF Cons.prems(2)] show ?thesis by simp
  next
    case (no_lots rep aid url e)
    with balanced_tally [OF Cons.prems(2)] show ?thesis by simp
  next
    case (lot_failed rep aid db1 url ls e)
    from lot_failed(4) balanced_tally [OF Cons.prems(2)] show ?thesis
      by (rule save_lots_balanced)
  next
    case (continue rep aid db1 url ls db2 t2)
    from continue(4) balanced_tally [OF Cons.prems(2)]
    have "processed t2 = created t2 + updated t2" by (rule save_lots_balanced)
    with continue(5) show ?thesis by (rule Cons.IH)
  qed
qed

lemma covered_persists: "persists db db' \<Longrightarrow> covered ad x db \<Longrightarrow> covered ad x db'"
  unfolding covered_def by (meson persists_auction persists_lot)

lemma scrape_loop_covers:
  "scrape_loop ad xs now db t = (db', t', None) \<Longrightarrow> \<forall>x \<in> set xs. covered ad x db'"
proof (induction xs arbitrary: db t)
  case Nil
  then show ?case by simp
next
  case (Cons x xs)
  from Cons.prems show ?case
  proof (cases rule: scrape_loop_Cons_elim)
    case (continue rep aid db1 url ls db2 t2)
    from continue(1) obtain e v where e: "d_external_id x = Some e"
      and u: "upsert_auction (house_id ad, e) v now db = Inr (rep, aid, db1)"
      by (rule save_auction_upserts)
    from u have "auction_id_of (house_id ad, e) db1 = Some aid"
      by (rule upsert_auction_persists(2))
    with save_lots_persists [OF continue(4)]
    have "auction_id_of (house_id ad, e) db2 = Some aid" by (rule persists_auction)
    with e continue(2,3) save_lots_stores [OF continue(4)]
    have "covered ad x db2" unfolding covered_def by blast
    with scrape_loop_persists [OF continue(5)] have "covered ad x db'"
      by (rule covered_persists)
    with Cons.IH [OF continue(5)] show ?thesis by simp
  qed simp_all
qed

lemma scrape_loop_known:
  "\<forall>x \<in> set xs. covered ad x db \<Longrightarrow> scrape_loop ad xs now db t = (db', t', err) \<Longrightarrow>
   created t' = created t"
proof (induction xs arbitrary: db t)
  case Nil
  then show ?case by simp
next
  case (Cons x xs)
  from Cons.prems(1) have cx: "covered ad x db" by simp
  have rest: "\<forall>y \<in> set xs. covered ad y db2" if "persists db db2" for db2
    using Cons.prems(1) that by (auto intro: covered_persists)
  have upd: "rep = Updated \<and> persists db db1 \<and>
      (\<forall>ls url. d_url x = Some url \<longrightarrow> scrape_lots ad url = Inr ls \<longrightarrow>
         (\<forall>l \<in> set ls. find_lot (aid, ld_lot_number l) db1 \<noteq> None))"
    if s: "save_auction (house_id ad) x now db = Inr (rep, aid, db1)" for rep aid db1
  proof -
    from s obtain e v where e: "d_external_id x = Some e"
      and u: "upsert_auction (house_id ad, e) v now db = Inr (rep, aid, db1)"
      by (rule save_auction_upserts)
    from cx e obtain i url' ls' where i: "auction_id_of (house_id ad, e) db = Some i"
      and url': "d_url x = Some url'" and ls': "scrape_lots ad url' = Inr ls'"
      and known: "\<forall>l \<in> set ls'. find_lot (i, ld_lot_number l) db \<noteq> None"
      unfolding covered_def by auto
    from i have "find_auction (house_id ad, e) db \<noteq> None"
      by (auto simp: auction_id_of_def)
    then have rep: "rep = Updated" by (rule upsert_auction_persists(3) [OF u])
    have p: "persists db db1" by (rule upsert_auction_persists(1) [OF u])
    from p i have "auction_id_of (house_id ad, e) db1 = Some i" by (rule persists_auction)
    with upsert_auction_persists(2) [OF u] have "aid = i" by simp
    with known have "\<forall>l \<in> set ls'. find_lot (aid, ld_lot_number l) db1 \<noteq> None"
      using persists_lot [OF p] by blast
    with url' ls' have "\<forall>ls url. d_url x = Some url \<longrightarrow> scrape_lots ad url = Inr ls \<longrightarrow>
         (\<forall>l \<in> set ls. find_lot (aid, ld_lot_number l) db1 \<noteq> None)"
      by simp
    with rep p show ?thesis by blast
  qed
  from Cons.prems(2) show ?case
  proof (cases rule: scrape_loop_Cons_elim)
    case (invalid e)
    then show ?thesis by simp
  next
    case (no_url rep aid)
    with upd [OF no_url(1)] show ?thesis by simp
  next
    case (no_lots rep aid url e)
    with upd [OF no_lots(1)] show ?thesis by simp
  next
    case (lot_failed rep aid db1 url ls e)
    from upd [OF lot_failed(1)] lot_failed(2,3)
    have "\<forall>l \<in> set ls. find_lot (aid, ld_lot_number l) db1 \<noteq> None" and "rep = Updated"
      by blast+
    with save_lots_known [OF _ lot_failed(4)] show ?thesis by simp
  next
    case (continue rep aid db1 url ls db2 t2)
    from upd [OF continue(1)] continue(2,3)
    have k: "\<forall>l \<in> set ls. find_lot (aid, ld_lot_number l) db1 \<noteq> None" and rep: "rep = Updated"
      and p: "persists db db1"
      by blast+
    from save_lots_known [OF k continue(4)] rep have c2: "created t2 = created t" by simp
    from p save_lots_persists [OF continue(4)] have "persists db db2" by (rule persists_trans)
    then have "\<forall>y \<in> set xs. covered ad y db2" by (rule rest)
    from Cons.IH [OF this continue(5)] c2 show ?thesis by simp
  qed
qed


lemma scrape_loop_processed:
  "scrape_loop ad xs now db t = (db', t', None) \<Longrightarrow> processed t' = processed t + job_items ad xs"
proof (induction xs arbitrary: db t)
  case Nil
  then show ?case by simp
next
  case (Cons x xs)
  from Cons.prems show ?case
  proof (cases rule: scrape_loop_Cons_elim)
    case (continue rep aid db1 url ls db2 t2)
    from save_lots_processed [OF continue(4)] Cons.IH [OF continue(5)] continue(2,3)
    show ?thesis by (simp add: processed_tally)
  qed simp_all
qed

lemma scrape_house_data_cases:
  assumes "scrape_house_data ad house now db = (db', entry)"
  obtains (no_list) e where "scrape_auctions ad = Inl e" and "o_tallies entry = no_tallies"
      and "o_status entry = Failed (str e)"
  | (listed) xs t err where "scrape_auctions ad = Inr xs"
      and "scrape_loop ad xs now db no_tallies = (db', t, err)" and "o_tallies entry = t"
      and "o_status entry = (case err of None \<Rightarrow> Completed | Some e \<Rightarrow> Failed (str e))"
proof (cases "scrape_auctions ad")
  case (Inl e)
  with assms have "o_tallies entry = no_tallies" and "o_status entry = Failed (str e)"
    by (auto simp: scrape_house_data_def log_scraping_error_def)
  with Inl show ?thesis by (rule no_list)
next
  case (Inr xs)
  obtain d t err where l: "scrape_loop ad xs now db no_tallies = (d, t, err)"
    by (cases "scrape_loop ad xs now db no_tallies")
  with assms Inr have "d = db'" and "o_tallies entry = t"
    and "o_status entry = (case err of None \<Rightarrow> Completed | Some e \<Rightarrow> Failed (str e))"
    by (auto simp: scrape_house_data_def log_scraping_error_def log_scraping_success_def
        split: option.splits)
  with Inr l show ?thesis by (simp add: listed)
qed

section \<open>Properties of well-formed stores\<close>

lemma check_constraints_iff:
  "check_constraints db = Inr db' \<longleftrightarrow>
     db' = db \<and> distinct (map a_id (auctions db)) \<and>
     auctions_house_id_external_id_key (auctions db) \<and>
     list_all auctions_status_check (auctions db) \<and>
     list_all auctions_auction_type_check (auctions db) \<and>
     distinct (map l_id (lots db)) \<and> lots_auction_id_lot_number_key (lots db) \<and>
     lots_auction_id_fkey db \<and> lots_artist_id_fkey db \<and>
     distinct (map r_id (artists db)) \<and> distinct (map g_id (scraping_logs db)) \<and>
     list_all scraping_logs_status_check (scraping_logs db)"
  by (auto simp: check_constraints_def)

lemma well_formedD:
  assumes "well_formed db"
  shows "distinct (map a_id (auctions db))"
    and "auctions_house_id_external_id_key (auctions db)"
    and "list_all auctions_status_check (auctions db)"
    and "list_all auctions_auction_type_check (auctions db)"
    and "distinct (map l_id (lots db))"
    and "lots_auction_id_lot_number_key (lots db)"
    and "lots_auction_id_fkey db"
    and "lots_artist_id_fkey db"
    and "distinct (map r_id (artists db))"
    and "distinct (map g_id (scraping_logs db))"
    and "list_all scraping_logs_status_check (scraping_logs db)"
    and "list_all (\<lambda>r. a_id r \<le> auctions_id_seq db) (auctions db)"
    and "list_all (\<lambda>l. l_id l \<le> lots_id_seq db) (lots db)"
  using assms by (simp_all add: well_formed_def check_constraints_iff)

lemma well_formed_empty: "well_formed empty_database"
  by (simp add: well_formed_def check_constraints_iff empty_database_def
      auctions_house_id_external_id_key_def lots_auction_id_lot_number_key_def
      lots_auction_id_fkey_def lots_artist_id_fkey_def)

lemma new_auction_simps:
  "a_id (new_auction k v i now) = i"
  "a_house_id (new_auction k v i now) = fst k"
  "a_external_id (new_auction k v i now) = Some (snd k)"
  "a_status (new_auction k v i now) = a_status v"
  "a_auction_type (new_auction k v i now) = a_auction_type v"
  "auction_key (new_auction k v i now) = Some k"
  by (simp_all add: new_auction_def auction_values.defs auction_row.defs auction_key_def)

lemma fresh_auction_id:
  assumes "well_formed db"
  shows "auctions_id_seq db + 1 \<notin> a_id ` set (auctions db)"
proof
  assume "auctions_id_seq db + 1 \<in> a_id ` set (auctions db)"
  then obtain r where "r \<in> set (auctions db)" and "a_id r = auctions_id_seq db + 1" by auto
  moreover from well_formedD(12) [OF assms] have "\<forall>r \<in> set (auctions db). a_id r \<le> auctions_id_seq db"
    by (simp add: list_all_iff)
  ultimately show False by force
qed

lemma fresh_lot_id:
  assumes "well_formed db"
  shows "lots_id_seq db + 1 \<notin> l_id ` set (lots db)"
proof
  assume "lots_id_seq db + 1 \<in> l_id ` set (lots db)"
  then obtain r where "r \<in> set (lots db)" and "l_id r = lots_id_seq db + 1" by auto
  moreover from well_formedD(13) [OF assms] have "\<forall>r \<in> set (lots db). l_id r \<le> lots_id_seq db"
    by (simp add: list_all_iff)
  ultimately show False by force
qed

lemma lots_artist_id_fkey_cong:
  "artists db' = artists db \<Longrightarrow> lots db' = lots db \<Longrightarrow>
   lots_artist_id_fkey db' = lots_artist_id_fkey db"
  by (simp add: lots_artist_id_fkey_def cong: option.case_cong)

lemma map_filter_append:
  "List.map_filter f (xs @ ys) = List.map_filter f xs @ List.map_filter f ys"
  by (simp add: List.map_filter_def)

lemma key_not_stored:
  "find_auction k db = None \<Longrightarrow> k \<notin> set (List.map_filter auction_key (auctions db))"
  by (auto simp: find_auction_def find_None_iff List.map_filter_def)

text \<open>Under a well-formed store, an insert of an unknown key fails on the row's checks only.\<close>

lemma insert_auction_exact:
  assumes wf: "well_formed db" and nf: "find_auction k db = None"
  shows "insert_auction (v\<lparr>a_house_id := fst k, a_external_id := Some (snd k)\<rparr>) now db =
     (if \<not> check_in (a_status v) [''upcoming'', ''active'', ''completed'', ''cancelled'']
      then Inl (check_violation ''auctions_status_check'')
      else if \<not> check_in (a_auction_type v) [''live'', ''online'', ''hybrid'']
      then Inl (check_violation ''auctions_auction_type_check'')
      else Inr (db\<lparr>auctions := auctions db @ [new_auction k v (auctions_id_seq db + 1) now],
                   auctions_id_seq := auctions_id_seq db + 1\<rparr>))"
proof -
  let ?row = "new_auction k v (auctions_id_seq db + 1) now"
  let ?db = "db\<lparr>auctions := auctions db @ [?row], auctions_id_seq := auctions_id_seq db + 1\<rparr>"
  have ins: "insert_auction (v\<lparr>a_house_id := fst k, a_external_id := Some (snd k)\<rparr>) now db
      = check_constraints ?db"
    by (simp add: insert_auction_def Let_def new_auction_def)
  have 1: "distinct (map a_id (auctions ?db))"
    using well_formedD(1) [OF wf] fresh_auction_id [OF wf] by (simp add: new_auction_simps)
  have 2: "auctions_house_id_external_id_key (auctions ?db)"
    using well_formedD(2) [OF wf] key_not_stored [OF nf]
    by (simp add: auctions_house_id_external_id_key_def map_filter_append new_auction_simps
        List.map_filter_simps)
  have 3: "list_all auctions_status_check (auctions ?db)
      \<longleftrightarrow> check_in (a_status v) [''upcoming'', ''active'', ''completed'', ''cancelled'']"
    using well_formedD(3) [OF wf] by (simp add: auctions_status_check_def new_auction_simps)
  have 4: "list_all auctions_auction_type_check (auctions ?db)
      \<longleftrightarrow> check_in (a_auction_type v) [''live'', ''online'', ''hybrid'']"
    using well_formedD(4) [OF wf] by (simp add: auctions_auction_type_check_def new_auction_simps)
  have 7: "lots_auction_id_fkey ?db"
    using well_formedD(7) [OF wf] by (auto simp: lots_auction_id_fkey_def list_all_iff)
  have 8: "lots_artist_id_fkey ?db"
    using well_formedD(8) [OF wf] by (simp add: lots_artist_id_fkey_cong [of ?db db])
  show ?thesis
    unfolding ins check_constraints_def
    using 1 2 3 4 7 8 well_formedD(5,6,9,10,11) [OF wf] by simp
qed

lemma map_filter_map_invariant:
  "(\<And>x. f (g x) = f x) \<Longrightarrow> List.map_filter f (map g xs) = List.map_filter f xs"
  by (induction xs) (simp_all add: List.map_filter_simps split: option.splits)

lemma touch_auction_simps:
  "a_id (touch_auction r v now x) = a_id x"
  "auction_key (touch_auction r v now x) = auction_key x"
  "a_house_id (touch_auction r v now x) = a_house_id x"
  "a_auction_type (touch_auction r v now x) = a_auction_type x"
  "a_status (touch_auction r v now x) = (if a_id x = a_id r then a_status v else a_status x)"
  by (simp_all add: touch_auction_def update_auctions_updated_at_def overwrite_auction_def
      auction_key_def)

lemma update_auctions_exact:
  assumes wf: "well_formed db" and r: "r \<in> set (auctions db)"
  shows "update_auctions (\<lambda>x. a_id x = a_id r) (overwrite_auction v) now db =
     (if \<not> check_in (a_status v) [''upcoming'', ''active'', ''completed'', ''cancelled'']
      then Inl (check_violation ''auctions_status_check'')
      else Inr (db\<lparr>auctions := map (touch_auction r v now) (auctions db)\<rparr>))"
proof -
  let ?db = "db\<lparr>auctions := map (touch_auction r v now) (auctions db)\<rparr>"
  have upd: "update_auctions (\<lambda>x. a_id x = a_id r) (overwrite_auction v) now db
      = check_constraints ?db"
    by (simp add: update_auctions_def touch_auction_def [abs_def])
  have ids: "map a_id (auctions ?db) = map a_id (auctions db)"
    by (simp add: touch_auction_simps comp_def)
  have 1: "distinct (map a_id (auctions ?db))"
    using well_formedD(1) [OF wf] by (simp only: ids)
  have "List.map_filter auction_key (map (touch_auction r v now) (auctions db))
      = List.map_filter auction_key (auctions db)"
    by (rule map_filter_map_invariant) (simp add: touch_auction_simps)
  then have 2: "auctions_house_id_external_id_key (auctions ?db)"
    using well_formedD(2) [OF wf] by (simp add: auctions_house_id_external_id_key_def)
  have 3: "list_all auctions_status_check (auctions ?db)
      \<longleftrightarrow> check_in (a_status v) [''upcoming'', ''active'', ''completed'', ''cancelled'']"
    using well_formedD(3) [OF wf] r
    by (auto simp: list_all_iff auctions_status_check_def touch_auction_simps)
  have 4: "list_all auctions_auction_type_check (auctions ?db)"
    using well_formedD(4) [OF wf]
    by (auto simp: list_all_iff auctions_auction_type_check_def touch_auction_simps)
  have 7: "lots_auction_id_fkey ?db"
    using well_formedD(7) [OF wf] ids by (simp add: lots_auction_id_fkey_def)
  have 8: "lots_artist_id_fkey ?db"
    using well_formedD(8) [OF wf] by (simp add: lots_artist_id_fkey_cong [of ?db db])
  show ?thesis
    unfolding upd check_constraints_def
    using 1 2 3 4 7 8 well_formedD(5,6,9,10,11) [OF wf] by simp
qed

lemma new_lot_simps:
  "l_id (new_lot k v i now) = i"
  "l_auction_id (new_lot k v i now) = fst k"
  "l_artist_id (new_lot k v i now) = l_artist_id v"
  "lot_key (new_lot k v i now) = k"
  by (simp_all add: new_lot_def lot_values.defs lot_row.defs lot_key_def)

lemma lot_key_not_stored:
  "find_lot k db = None \<Longrightarrow> k \<notin> set (map lot_key (lots db))"
  by (auto simp: find_lot_def find_None_iff)

lemma insert_lot_exact:
  assumes wf: "well_formed db" and nf: "find_lot k db = None"
    and fk: "fst k \<in> a_id ` set (auctions db)" and na: "l_artist_id v = None"
  shows "insert_lot (v\<lparr>l_auction_id := fst k, l_lot_number := snd k\<rparr>) now db =
     Inr (db\<lparr>lots := lots db @ [new_lot k v (lots_id_seq db + 1) now],
              lots_id_seq := lots_id_seq db + 1\<rparr>)"
proof -
  let ?row = "new_lot k v (lots_id_seq db + 1) now"
  let ?db = "db\<lparr>lots := lots db @ [?row], lots_id_seq := lots_id_seq db + 1\<rparr>"
  have ins: "insert_lot (v\<lparr>l_auction_id := fst k, l_lot_number := snd k\<rparr>) now db
      = check_constraints ?db"
    by (simp add: insert_lot_def Let_def new_lot_def)
  have 5: "distinct (map l_id (lots ?db))"
    using well_formedD(5) [OF wf] fresh_lot_id [OF wf] by (simp add: new_lot_simps)
  have 6: "lots_auction_id_lot_number_key (lots ?db)"
    using well_formedD(6) [OF wf] lot_key_not_stored [OF nf]
    by (simp add: lots_auction_id_lot_number_key_def new_lot_simps)
  have 7: "lots_auction_id_fkey ?db"
    using well_formedD(7) [OF wf] fk by (simp add: lots_auction_id_fkey_def new_lot_simps)
  have 8: "lots_artist_id_fkey ?db"
    using well_formedD(8) [OF wf] na
    by (simp add: lots_artist_id_fkey_def new_lot_simps cong: option.case_cong)
  show ?thesis
    unfolding ins check_constraints_def
    using 5 6 7 8 well_formedD(1,2,3,4,9,10,11) [OF wf] by simp
qed

lemma touch_lot_simps:
  "l_id (touch_lot l v now x) = l_id x"
  "lot_key (touch_lot l v now x) = lot_key x"
  "l_auction_id (touch_lot l v now x) = l_auction_id x"
  "l_artist_id (touch_lot l v now x) = (if l_id x = l_id l then l_artist_id v else l_artist_id x)"
  by (simp_all add: touch_lot_def update_lots_updated_at_def overwrite_lot_def
      lot_key_def lot_values.defs lot_row.defs)

lemma update_lots_exact:
  assumes wf: "well_formed db" and na: "l_artist_id v = None"
  shows "update_lots (\<lambda>x. l_id x = l_id l) (overwrite_lot v) now db =
     Inr (db\<lparr>lots := map (touch_lot l v now) (lots db)\<rparr>)"
proof -
  let ?db = "db\<lparr>lots := map (touch_lot l v now) (lots db)\<rparr>"
  have upd: "update_lots (\<lambda>x. l_id x = l_id l) (overwrite_lot v) now db = check_constraints ?db"
    by (simp add: update_lots_def touch_lot_def [abs_def])
  have ids: "map l_id (lots ?db) = map l_id (lots db)"
    by (simp add: touch_lot_simps comp_def)
  have keys: "map lot_key (lots ?db) = map lot_key (lots db)"
    by (simp add: touch_lot_simps comp_def)
  have 5: "distinct (map l_id (lots ?db))"
    using well_formedD(5) [OF wf] by (simp only: ids)
  have 6: "lots_auction_id_lot_number_key (lots ?db)"
    using well_formedD(6) [OF wf] unfolding lots_auction_id_lot_number_key_def
    by (simp only: keys)
  have 7: "lots_auction_id_fkey ?db"
    using well_formedD(7) [OF wf]
    by (auto simp: lots_auction_id_fkey_def list_all_iff touch_lot_simps)
  have 8: "lots_artist_id_fkey ?db"
    using well_formedD(8) [OF wf] na
    by (auto simp: lots_artist_id_fkey_def list_all_iff touch_lot_simps cong: option.case_cong)
  show ?thesis
    unfolding upd check_constraints_def
    using 5 6 7 8 well_formedD(1,2,3,4,9,10,11) [OF wf] by simp
qed

lemma check_constraints_same: "check_constraints db = Inr db' \<Longrightarrow> check_constraints db' = Inr db'"
  by (simp add: check_constraints_iff)

lemma well_formed_insert_auction:
  assumes "well_formed db" and "insert_auction v now db = Inr db'"
  shows "well_formed db'"
proof -
  let ?db = "db\<lparr>auctions := auctions db @
      [auction_values.extend v (auction_row.fields (auctions_id_seq db + 1) (Some now) (Some now))],
      auctions_id_seq := auctions_id_seq db + 1\<rparr>"
  from assms(2) have c: "check_constraints ?db = Inr db'"
    by (simp add: insert_auction_def Let_def)
  then have eq: "db' = ?db" by (simp add: check_constraints_iff)
  from well_formedD(12,13) [OF assms(1)]
  have "list_all (\<lambda>r. a_id r \<le> auctions_id_seq ?db) (auctions ?db)"
    and "list_all (\<lambda>l. l_id l \<le> lots_id_seq ?db) (lots ?db)"
    by (auto simp: list_all_iff auction_values.defs auction_row.defs)
  with check_constraints_same [OF c] eq show ?thesis by (simp add: well_formed_def)
qed

lemma well_formed_update_auctions:
  fixes r :: auction_row
  assumes "well_formed db"
    and "update_auctions (\<lambda>x. a_id x = a_id r) (overwrite_auction v) now db = Inr db'"
  shows "well_formed db'"
proof -
  let ?db = "db\<lparr>auctions := map (touch_auction r v now) (auctions db)\<rparr>"
  from assms(2) have c: "check_constraints ?db = Inr db'"
    by (simp add: update_auctions_def touch_auction_def [abs_def])
  then have eq: "db' = ?db" by (simp add: check_constraints_iff)
  from well_formedD(12,13) [OF assms(1)]
  have "list_all (\<lambda>r. a_id r \<le> auctions_id_seq ?db) (auctions ?db)"
    and "list_all (\<lambda>l. l_id l \<le> lots_id_seq ?db) (lots ?db)"
    by (auto simp: list_all_iff touch_auction_simps)
  with check_constraints_same [OF c] eq show ?thesis by (simp add: well_formed_def)
qed

lemma well_formed_insert_lot:
  assumes "well_formed db" and "insert_lot v now db = Inr db'"
  shows "well_formed db'"
proof -
  let ?db = "db\<lparr>lots := lots db @
      [lot_values.extend v (lot_row.fields (lots_id_seq db + 1) (Some now) (Some now))],
      lots_id_seq := lots_id_seq db + 1\<rparr>"
  from assms(2) have c: "check_constraints ?db = Inr db'"
    by (simp add: insert_lot_def Let_def)
  then have eq: "db' = ?db" by (simp add: check_constraints_iff)
  from well_formedD(12,13) [OF assms(1)]
  have "list_all (\<lambda>r. a_id r \<le> auctions_id_seq ?db) (auctions ?db)"
    and "list_all (\<lambda>l. l_id l \<le> lots_id_seq ?db) (lots ?db)"
    by (auto simp: list_all_iff lot_values.defs lot_row.defs)
  with check_constraints_same [OF c] eq show ?thesis by (simp add: well_formed_def)
qed

lemma well_formed_update_lots:
  fixes l :: lot_row
  assumes "well_formed db"
    and "update_lots (\<lambda>x. l_id x = l_id l) (overwrite_lot v) now db = Inr db'"
  shows "well_formed db'"
proof -
  let ?db = "db\<lparr>lots := map (touch_lot l v now) (lots db)\<rparr>"
  from assms(2) have c: "check_constraints ?db = Inr db'"
    by (simp add: update_lots_def touch_lot_def [abs_def])
  then have eq: "db' = ?db" by (simp add: check_constraints_iff)
  from well_formedD(12,13) [OF assms(1)]
  have "list_all (\<lambda>r. a_id r \<le> auctions_id_seq ?db) (auctions ?db)"
    and "list_all (\<lambda>l. l_id l \<le> lots_id_seq ?db) (lots ?db)"
    by (auto simp: list_all_iff touch_lot_simps)
  with check_constraints_same [OF c] eq show ?thesis by (simp add: well_formed_def)
qed

lemma well_formed_upsert_auction:
  assumes "well_formed db" and "upsert_auction k v now db = Inr (rep, i, db')"
  shows "well_formed db'"
  using assms
  by (auto simp: upsert_auction_def split: option.splits sum.splits
      intro: well_formed_insert_auction well_formed_update_auctions)

lemma well_formed_upsert_lot:
  assumes "well_formed db" and "upsert_lot k v now db = Inr (rep, i, db')"
  shows "well_formed db'"
  using assms
  by (auto simp: upsert_lot_def split: option.splits sum.splits
      intro: well_formed_insert_lot well_formed_update_lots)

lemma upsert_auction_exact:
  assumes wf: "well_formed db"
  shows "upsert_auction k v now db =
     (case find_auction k db of
        None \<Rightarrow>
          if \<not> check_in (a_status v) [''upcoming'', ''active'', ''completed'', ''cancelled'']
          then Inl (IntegrityError (check_violation ''auctions_status_check''))
          else if \<not> check_in (a_auction_type v) [''live'', ''online'', ''hybrid'']
          then Inl (IntegrityError (check_violation ''auctions_auction_type_check''))
          else Inr (Created, auctions_id_seq db + 1,
                 db\<lparr>auctions := auctions db @ [new_auction k v (auctions_id_seq db + 1) now],
                    auctions_id_seq := auctions_id_seq db + 1\<rparr>)
      | Some r \<Rightarrow>
          if \<not> check_in (a_status v) [''upcoming'', ''active'', ''completed'', ''cancelled'']
          then Inl (IntegrityError (check_violation ''auctions_status_check''))
          else Inr (Updated, a_id r,
                 db\<lparr>auctions := map (touch_auction r v now) (auctions db)\<rparr>))"
proof (cases "find_auction k db")
  case None
  then show ?thesis
    by (simp add: upsert_auction_def insert_auction_exact [OF wf None])
next
  case (Some r)
  then have "r \<in> set (auctions db)" by (auto simp: find_auction_def find_Some_iff)
  with Some show ?thesis
    by (simp add: upsert_auction_def update_auctions_exact [OF wf])
qed

lemma upsert_lot_exact:
  assumes wf: "well_formed db" and fk: "fst k \<in> a_id ` set (auctions db)"
    and na: "l_artist_id v = None"
  shows "upsert_lot k v now db =
     (case find_lot k db of
        None \<Rightarrow>
          Inr (Created, lots_id_seq db + 1,
            db\<lparr>lots := lots db @ [new_lot k v (lots_id_seq db + 1) now],
               lots_id_seq := lots_id_seq db + 1\<rparr>)
      | Some l \<Rightarrow>
          Inr (Updated, l_id l, db\<lparr>lots := map (touch_lot l v now) (lots db)\<rparr>))"
proof (cases "find_lot k db")
  case None
  then show ?thesis
    by (simp add: upsert_lot_def insert_lot_exact [OF wf None fk na])
next
  case (Some l)
  then show ?thesis
    by (simp add: upsert_lot_def update_lots_exact [OF wf na])
qed

text \<open>Lookups after each of the four writes.\<close>

lemma auction_id_of_append:
  "auction_id_of k' (db\<lparr>auctions := auctions db @ [new_auction k v i now], auctions_id_seq := s\<rparr>)
     = (case auction_id_of k' db of Some j \<Rightarrow> Some j | None \<Rightarrow> if k' = k then Some i else None)"
  by (auto simp: auction_id_of_def find_auction_def find_append_case new_auction_simps
      split: option.splits)

lemma auction_id_of_touch:
  "auction_id_of k' (db\<lparr>auctions := map (touch_auction r v now) (auctions db)\<rparr>)
     = auction_id_of k' db"
proof -
  have "find (\<lambda>x. auction_key x = Some k') (map (touch_auction r v now) (auctions db))
      = map_option (touch_auction r v now) (find (\<lambda>x. auction_key x = Some k') (auctions db))"
    by (rule find_map_invariant) (simp add: touch_auction_simps)
  then show ?thesis
    by (simp add: auction_id_of_def find_auction_def option.map_comp comp_def touch_auction_simps)
qed

lemma find_lot_append:
  "find_lot k' (db\<lparr>lots := lots db @ [new_lot k v i now], lots_id_seq := s\<rparr>) = None
     \<longleftrightarrow> find_lot k' db = None \<and> k' \<noteq> k"
  by (auto simp: find_lot_def find_append_case new_lot_simps split: option.splits)

lemma find_lot_touch:
  "find_lot k' (db\<lparr>lots := map (touch_lot l v now) (lots db)\<rparr>) = None
     \<longleftrightarrow> find_lot k' db = None"
proof -
  have "find (\<lambda>x. lot_key x = k') (map (touch_lot l v now) (lots db))
      = map_option (touch_lot l v now) (find (\<lambda>x. lot_key x = k') (lots db))"
    by (rule find_map_invariant) (simp add: touch_lot_simps)
  then show ?thesis by (simp add: find_lot_def)
qed

lemma find_SomeD: "find P xs = Some x \<Longrightarrow> x \<in> set xs \<and> P x"
  by (induction xs) (auto split: if_splits)

lemma auction_id_of_row:
  assumes "auction_id_of k db = Some i"
  obtains r where "r \<in> set (auctions db)" and "auction_key r = Some k" and "a_id r = i"
  using assms by (auto simp: auction_id_of_def find_auction_def dest: find_SomeD)

lemma auction_id_of_stored: "auction_id_of k db = Some i \<Longrightarrow> i \<in> a_id ` set (auctions db)"
  by (erule auction_id_of_row) auto

lemma auction_id_of_inj:
  assumes wf: "well_formed db"
    and "auction_id_of k db = Some i" and "auction_id_of k' db = Some i"
  shows "k = k'"
proof -
  from assms(2) obtain r where r: "r \<in> set (auctions db)" "auction_key r = Some k" "a_id r = i"
    by (rule auction_id_of_row)
  from assms(3) obtain r' where r': "r' \<in> set (auctions db)" "auction_key r' = Some k'" "a_id r' = i"
    by (rule auction_id_of_row)
  from well_formedD(1) [OF wf] have "inj_on a_id (set (auctions db))"
    by (simp add: distinct_map)
  with r r' have "r = r'" by (auto dest: inj_onD)
  with r r' show ?thesis by simp
qed

lemma no_lots_of_unknown:
  assumes wf: "well_formed db" and "i \<notin> a_id ` set (auctions db)"
  shows "find_lot (i, num) db = None"
proof -
  from well_formedD(7) [OF wf]
  have "\<forall>l \<in> set (lots db). l_auction_id l \<in> a_id ` set (auctions db)"
    by (simp add: lots_auction_id_fkey_def list_all_iff)
  with assms(2) show ?thesis
    by (auto simp: find_lot_def find_None_iff lot_key_def)
qed

lemma find_lot_auctions_update [simp]:
  "find_lot k (db\<lparr>auctions := xs\<rparr>) = find_lot k db"
  "find_lot k (db\<lparr>auctions := xs, auctions_id_seq := s\<rparr>) = find_lot k db"
  by (simp_all add: find_lot_def)

lemma auction_id_of_lots_update [simp]:
  "auction_id_of k (db\<lparr>lots := xs\<rparr>) = auction_id_of k db"
  "auction_id_of k (db\<lparr>lots := xs, lots_id_seq := s\<rparr>) = auction_id_of k db"
  by (simp_all add: auction_id_of_def find_auction_def)

lemma find_auction_None_iff: "find_auction k db = None \<longleftrightarrow> auction_id_of k db = None"
  by (simp add: auction_id_of_def)

text \<open>What a successful upsert of an auction does to the lookups.\<close>

lemma upsert_auction_effect:
  assumes wf: "well_formed db" and u: "upsert_auction k v now db = Inr (rep, i, db')"
  shows "auction_id_of k' db' = (if k' = k then Some i else auction_id_of k' db)"
    and "find_lot kl db' = find_lot kl db"
    and "rep = (if auction_id_of k db = None then Created else Updated)"
    and "auction_id_of k db = None \<Longrightarrow> find_lot (i, num) db = None"
    and "auction_id_of k db = Some j \<Longrightarrow> i = j"
proof -
  have "auction_id_of k' db' = (if k' = k then Some i else auction_id_of k' db) \<and>
      find_lot kl db' = find_lot kl db \<and>
      rep = (if auction_id_of k db = None then Created else Updated) \<and>
      (auction_id_of k db = None \<longrightarrow> find_lot (i, num) db = None) \<and>
      (auction_id_of k db = Some j \<longrightarrow> i = j)"
  proof (cases "find_auction k db")
    case None
    with u upsert_auction_exact [OF wf, of k v now]
    have i: "i = auctions_id_seq db + 1" and rep: "rep = Created"
      and db': "db' = db\<lparr>auctions := auctions db @ [new_auction k v i now],
          auctions_id_seq := auctions_id_seq db + 1\<rparr>"
      by (auto split: if_splits)
    from None have n: "auction_id_of k db = None" by (simp add: auction_id_of_def)
    from i fresh_auction_id [OF wf] have "find_lot (i, num) db = None"
      by (simp add: no_lots_of_unknown [OF wf])
    with n rep show ?thesis
      by (simp add: db' auction_id_of_append split: option.splits)
  next
    case (Some r)
    with u upsert_auction_exact [OF wf, of k v now]
    have i: "i = a_id r" and rep: "rep = Updated"
      and db': "db' = db\<lparr>auctions := map (touch_auction r v now) (auctions db)\<rparr>"
      by (auto split: if_splits)
    from Some i have n: "auction_id_of k db = Some i" by (simp add: auction_id_of_def)
    with rep show ?thesis
      by (auto simp: db' auction_id_of_touch)
  qed
  then show "auction_id_of k' db' = (if k' = k then Some i else auction_id_of k' db)"
    and "find_lot kl db' = find_lot kl db"
    and "rep = (if auction_id_of k db = None then Created else Updated)"
    and "auction_id_of k db = None \<Longrightarrow> find_lot (i, num) db = None"
    and "auction_id_of k db = Some j \<Longrightarrow> i = j"
    by simp_all
qed

lemma upsert_auction_same_outcome:
  assumes "well_formed db1" and "well_formed db2"
    and "(auction_id_of k db1 = None) = (auction_id_of k db2 = None)"
  shows "map_sum id fst (upsert_auction k v now db1) = map_sum id fst (upsert_auction k v now db2)"
  using assms(3)
  by (auto simp: upsert_auction_exact [OF assms(1)] upsert_auction_exact [OF assms(2)]
      find_auction_None_iff [symmetric] split: option.splits)

text \<open>An upsert of a lot of a stored auction succeeds; what it does to the lookups.\<close>

lemma upsert_lot_effect:
  assumes wf: "well_formed db" and fk: "fst k \<in> a_id ` set (auctions db)"
    and na: "l_artist_id v = None"
  obtains i db' where
    "upsert_lot k v now db = Inr (if find_lot k db = None then Created else Updated, i, db')"
    and "well_formed db'" and "auctions db' = auctions db"
    and "\<And>k'. (find_lot k' db' = None) = (find_lot k' db = None \<and> k' \<noteq> k)"
proof (cases "find_lot k db")
  case None
  let ?db = "db\<lparr>lots := lots db @ [new_lot k v (lots_id_seq db + 1) now],
               lots_id_seq := lots_id_seq db + 1\<rparr>"
  from None have u: "upsert_lot k v now db
      = Inr (if find_lot k db = None then Created else Updated, lots_id_seq db + 1, ?db)"
    by (simp add: upsert_lot_exact [OF wf fk na])
  moreover from u have "well_formed ?db" by (rule well_formed_upsert_lot [OF wf])
  moreover have "auctions ?db = auctions db" by simp
  moreover have "(find_lot k' ?db = None) = (find_lot k' db = None \<and> k' \<noteq> k)" for k'
    by (rule find_lot_append)
  ultimately show ?thesis by (rule that)
next
  case (Some l)
  let ?db = "db\<lparr>lots := map (touch_lot l v now) (lots db)\<rparr>"
  from Some have u: "upsert_lot k v now db
      = Inr (if find_lot k db = None then Created else Updated, l_id l, ?db)"
    by (simp add: upsert_lot_exact [OF wf fk na])
  moreover from u have "well_formed ?db" by (rule well_formed_upsert_lot [OF wf])
  moreover have "auctions ?db = auctions db" by simp
  moreover have "(find_lot k' ?db = None) = (find_lot k' db = None \<and> k' \<noteq> k)" for k'
    using Some by (auto simp: find_lot_touch)
  ultimately show ?thesis by (rule that)
qed

lemma artist_normalize_lot: "l_artist_id (snd (normalize_lot aid raw)) = None"
  by (simp add: normalize_lot_def)

lemma auction_id_of_cong: "auctions db' = auctions db \<Longrightarrow> auction_id_of k db' = auction_id_of k db"
  by (simp add: auction_id_of_def find_auction_def)

text \<open>Saving the lots of a stored auction succeeds and stores exactly their keys.\<close>

lemma save_lots_effect:
  "well_formed db \<Longrightarrow> aid \<in> a_id ` set (auctions db) \<Longrightarrow>
   \<exists>db' t'. save_lots aid ls now db t = (db', t', None) \<and> well_formed db' \<and>
     auctions db' = auctions db \<and>
     (\<forall>k'. (find_lot k' db' = None)
        = (find_lot k' db = None \<and> k' \<notin> (\<lambda>l. (aid, ld_lot_number l)) ` set ls))"
proof (induction ls arbitrary: db t)
  case Nil
  then show ?case by simp
next
  case (Cons l ls)
  let ?k = "(aid, ld_lot_number l)"
  let ?v = "snd (normalize_lot aid l)"
  from Cons.prems have fk: "fst ?k \<in> a_id ` set (auctions db)" by simp
  from upsert_lot_effect [OF Cons.prems(1) fk artist_normalize_lot, of aid l now]
  obtain i db1 where u: "upsert_lot ?k ?v now db
        = Inr (if find_lot ?k db = None then Created else Updated, i, db1)"
    and wf1: "well_formed db1" and a1: "auctions db1 = auctions db"
    and f1: "\<And>k'. (find_lot k' db1 = None) = (find_lot k' db = None \<and> k' \<noteq> ?k)"
    by blast
  from Cons.prems(2) a1 have "aid \<in> a_id ` set (auctions db1)" by simp
  from Cons.IH [OF wf1 this, of "tally (if find_lot ?k db = None then Created else Updated) t"]
  obtain db' t' where s: "save_lots aid ls now db1
        (tally (if find_lot ?k db = None then Created else Updated) t) = (db', t', None)"
    and wf': "well_formed db'" and a': "auctions db' = auctions db1"
    and f': "\<forall>k'. (find_lot k' db' = None)
        = (find_lot k' db1 = None \<and> k' \<notin> (\<lambda>l. (aid, ld_lot_number l)) ` set ls)"
    by blast
  from u s have "save_lots aid (l # ls) now db t = (db', t', None)"
    by (simp add: fst_normalize_lot)
  moreover from a' a1 have "auctions db' = auctions db" by simp
  moreover from f' f1 have "\<forall>k'. (find_lot k' db' = None)
        = (find_lot k' db = None \<and> k' \<notin> (\<lambda>l. (aid, ld_lot_number l)) ` set (l # ls))"
    by auto
  ultimately show ?case using wf' by blast
qed

text \<open>Two stores in which an auction has the same lot numbers tally its lots alike.\<close>

lemma save_lots_alike:
  "well_formed db1 \<Longrightarrow> well_formed db2 \<Longrightarrow>
   i1 \<in> a_id ` set (auctions db1) \<Longrightarrow> i2 \<in> a_id ` set (auctions db2) \<Longrightarrow>
   \<forall>num. (find_lot (i1, num) db1 = None) = (find_lot (i2, num) db2 = None) \<Longrightarrow>
   fst (snd (save_lots i1 ls now db1 t)) = fst (snd (save_lots i2 ls now db2 t))"
proof (induction ls arbitrary: db1 db2 t)
  case Nil
  then show ?case by simp
next
  case (Cons l ls)
  let ?n = "ld_lot_number l"
  let ?rep = "if find_lot (i1, ?n) db1 = None then Created else Updated"
  from Cons.prems(5) have rep: "(if find_lot (i2, ?n) db2 = None then Created else Updated) = ?rep"
    by simp
  from Cons.prems(3) have fk1: "fst (i1, ?n) \<in> a_id ` set (auctions db1)" by simp
  from Cons.prems(4) have fk2: "fst (i2, ?n) \<in> a_id ` set (auctions db2)" by simp
  from upsert_lot_effect [OF Cons.prems(1) fk1 artist_normalize_lot, of i1 l now]
  obtain j1 d1 where u1: "upsert_lot (i1, ?n) (snd (normalize_lot i1 l)) now db1 = Inr (?rep, j1, d1)"
    and wf1: "well_formed d1" and a1: "auctions d1 = auctions db1"
    and f1: "\<And>k'. (find_lot k' d1 = None) = (find_lot k' db1 = None \<and> k' \<noteq> (i1, ?n))"
    by blast
  from upsert_lot_effect [OF Cons.prems(2) fk2 artist_normalize_lot, of i2 l now] rep
  obtain j2 d2 where u2: "upsert_lot (i2, ?n) (snd (normalize_lot i2 l)) now db2 = Inr (?rep, j2, d2)"
    and wf2: "well_formed d2" and a2: "auctions d2 = auctions db2"
    and f2: "\<And>k'. (find_lot k' d2 = None) = (find_lot k' db2 = None \<and> k' \<noteq> (i2, ?n))"
    by auto
  from Cons.prems(5) f1 f2
  have "\<forall>num. (find_lot (i1, num) d1 = None) = (find_lot (i2, num) d2 = None)"
    by simp
  moreover from Cons.prems(3,4) a1 a2 have "i1 \<in> a_id ` set (auctions d1)"
    and "i2 \<in> a_id ` set (auctions d2)" by simp_all
  ultimately have "fst (snd (save_lots i1 ls now d1 (tally ?rep t)))
      = fst (snd (save_lots i2 ls now d2 (tally ?rep t)))"
    using wf1 wf2 by (intro Cons.IH)
  with u1 u2 show ?case by (simp add: fst_normalize_lot)
qed

lemma untouched_refl: "untouched h db db"
  by (simp add: untouched_def)

lemma untouched_trans: "untouched h a b \<Longrightarrow> untouched h b c \<Longrightarrow> untouched h a c"
  unfolding untouched_def by metis

lemma stored_alike_untouched:
  "stored_alike h db1 db2 \<Longrightarrow> untouched h db1 d1 \<Longrightarrow> untouched h db2 d2 \<Longrightarrow> stored_alike h d1 d2"
  unfolding stored_alike_def untouched_def
  by (auto simp: option.rel_sel option.rel_map split: option.splits) (metis option.collapse option.sel)+

section \<open>A task of another source leaves a source's records alone\<close>

lemma save_auction_untouched:
  assumes wf: "well_formed db" and s: "save_auction h' x now db = Inr (rep, aid, db1)"
    and ne: "h' \<noteq> h"
  shows "well_formed db1" and "untouched h db db1"
    and "\<exists>e'. auction_id_of (h', e') db1 = Some aid"
proof -
  from s obtain e' v where u: "upsert_auction (h', e') v now db = Inr (rep, aid, db1)"
    by (rule save_auction_upserts)
  from wf u show "well_formed db1" by (rule well_formed_upsert_auction)
  from ne upsert_auction_effect(1,2) [OF wf u] show "untouched h db db1"
    by (simp add: untouched_def)
  from upsert_auction_effect(1) [OF wf u, of "(h', e')"]
  show "\<exists>e'. auction_id_of (h', e') db1 = Some aid" by auto
qed

lemma save_lots_untouched:
  assumes wf: "well_formed db" and aid: "auction_id_of (h', e') db = Some aid"
    and ne: "h' \<noteq> h" and s: "save_lots aid ls now db t = (db', t', err)"
  shows "well_formed db'" and "untouched h db db'"
proof -
  from aid have "aid \<in> a_id ` set (auctions db)" by (rule auction_id_of_stored)
  from save_lots_effect [OF wf this, of ls now t] s
  have wf': "well_formed db'" and a: "auctions db' = auctions db"
    and f: "\<forall>k'. (find_lot k' db' = None)
        = (find_lot k' db = None \<and> k' \<notin> (\<lambda>l. (aid, ld_lot_number l)) ` set ls)"
    by auto
  from wf' show "well_formed db'" .
  have "i \<noteq> aid" if "auction_id_of (h, e) db = Some i" for e i
    using auction_id_of_inj [OF wf that, of "(h', e')"] aid ne by auto
  with f show "untouched h db db'"
    by (auto simp: untouched_def auction_id_of_cong [OF a])
qed

lemma scrape_loop_untouched:
  "well_formed db \<Longrightarrow> house_id ad \<noteq> h \<Longrightarrow> scrape_loop ad xs now db t = (db', t', err) \<Longrightarrow>
   well_formed db' \<and> untouched h db db'"
proof (induction xs arbitrary: db t)
  case Nil
  then show ?case by (simp add: untouched_refl)
next
  case (Cons x xs)
  note wf = Cons.prems(1) and ne = Cons.prems(2)
  from Cons.prems(3) show ?case
  proof (cases rule: scrape_loop_Cons_elim)
    case (invalid e)
    with wf show ?thesis by (simp add: untouched_refl)
  next
    case (no_url rep aid)
    from save_auction_untouched(1,2) [OF wf no_url(1) ne] show ?thesis by simp
  next
    case (no_lots rep aid url e)
    from save_auction_untouched(1,2) [OF wf no_lots(1) ne] show ?thesis by simp
  next
    case (lot_failed rep aid db1 url ls e)
    from save_auction_untouched [OF wf lot_failed(1) ne]
    obtain e' where wf1: "well_formed db1" and u1: "untouched h db db1"
      and aid: "auction_id_of (house_id ad, e') db1 = Some aid" by blast
    from save_lots_untouched [OF wf1 aid ne lot_failed(4)] u1 show ?thesis
      by (blast intro: untouched_trans)
  next
    case (continue rep aid db1 url ls db2 t2)
    from save_auction_untouched [OF wf continue(1) ne]
    obtain e' where wf1: "well_formed db1" and u1: "untouched h db db1"
      and aid: "auction_id_of (house_id ad, e') db1 = Some aid" by blast
    from save_lots_untouched [OF wf1 aid ne continue(4)]
    have wf2: "well_formed db2" and u2: "untouched h db1 db2" by simp_all
    from Cons.IH [OF wf2 ne continue(5)] u1 u2 show ?thesis
      by (blast intro: untouched_trans)
  qed
qed

lemma scrape_house_data_untouched:
  assumes "well_formed db" and "house_id ad \<noteq> h"
    and "scrape_house_data ad house now db = (db', entry)"
  shows "well_formed db'" and "untouched h db db'"
proof -
  have "well_formed db' \<and> untouched h db db'"
  proof (cases "scrape_auctions ad")
    case (Inl e)
    with assms show ?thesis by (simp add: scrape_house_data_def untouched_refl)
  next
    case (Inr xs)
    obtain d t err where l: "scrape_loop ad xs now db no_tallies = (d, t, err)"
      by (cases "scrape_loop ad xs now db no_tallies")
    with assms(3) Inr have "d = db'"
      by (cases err) (simp_all add: scrape_house_data_def)
    with scrape_loop_untouched [OF assms(1,2) l] show ?thesis by simp
  qed
  then show "well_formed db'" and "untouched h db db'" by simp_all
qed

section \<open>A task sees of the store only its own source's keys\<close>

lemma stored_alikeD:
  assumes "stored_alike h db1 db2"
  shows "(auction_id_of (h, e) db1 = None) = (auction_id_of (h, e) db2 = None)"
    and "auction_id_of (h, e) db1 = Some i1 \<Longrightarrow> auction_id_of (h, e) db2 = Some i2 \<Longrightarrow>
         (find_lot (i1, num) db1 = None) = (find_lot (i2, num) db2 = None)"
proof -
  from assms have r: "rel_option
      (\<lambda>i1 i2. \<forall>num. (find_lot (i1, num) db1 = None) = (find_lot (i2, num) db2 = None))
      (auction_id_of (h, e) db1) (auction_id_of (h, e) db2)"
    by (simp add: stored_alike_def)
  then show "(auction_id_of (h, e) db1 = None) = (auction_id_of (h, e) db2 = None)"
    by (cases "auction_id_of (h, e) db1"; cases "auction_id_of (h, e) db2") simp_all
  from r show "auction_id_of (h, e) db1 = Some i1 \<Longrightarrow> auction_id_of (h, e) db2 = Some i2 \<Longrightarrow>
         (find_lot (i1, num) db1 = None) = (find_lot (i2, num) db2 = None)"
    by simp
qed

lemma stored_alikeI:
  assumes "\<And>e. (auction_id_of (h, e) db1 = None) = (auction_id_of (h, e) db2 = None)"
    and "\<And>e i1 i2 num. auction_id_of (h, e) db1 = Some i1 \<Longrightarrow> auction_id_of (h, e) db2 = Some i2 \<Longrightarrow>
         (find_lot (i1, num) db1 = None) = (find_lot (i2, num) db2 = None)"
  shows "stored_alike h db1 db2"
  unfolding stored_alike_def
proof
  fix e
  show "rel_option
      (\<lambda>i1 i2. \<forall>num. (find_lot (i1, num) db1 = None) = (find_lot (i2, num) db2 = None))
      (auction_id_of (h, e) db1) (auction_id_of (h, e) db2)"
    using assms(1) [of e] assms(2) [of e]
    by (cases "auction_id_of (h, e) db1"; cases "auction_id_of (h, e) db2") simp_all
qed

lemma save_auction_alike:
  assumes wf1: "well_formed db1" and wf2: "well_formed db2" and al: "stored_alike h db1 db2"
  shows "(\<exists>e. save_auction h x now db1 = Inl e \<and> save_auction h x now db2 = Inl e) \<or>
     (\<exists>rep i1 d1 i2 d2 e. save_auction h x now db1 = Inr (rep, i1, d1) \<and>
        save_auction h x now db2 = Inr (rep, i2, d2) \<and> well_formed d1 \<and> well_formed d2 \<and>
        stored_alike h d1 d2 \<and>
        auction_id_of (h, e) d1 = Some i1 \<and> auction_id_of (h, e) d2 = Some i2)"
proof (cases "normalize_auction h x")
  case (Inl e)
  then show ?thesis by (simp add: save_auction_def)
next
  case (Inr kv)
  obtain k v where kv: "kv = (k, v)" by (cases kv)
  from normalize_auction_key [of h x k v] Inr kv obtain e where k: "k = (h, e)" by auto
  have s1: "save_auction h x now db1 = upsert_auction (h, e) v now db1"
    and s2: "save_auction h x now db2 = upsert_auction (h, e) v now db2"
    using Inr kv k by (simp_all add: save_auction_def)
  from stored_alikeD(1) [OF al]
  have same: "(auction_id_of (h, e) db1 = None) = (auction_id_of (h, e) db2 = None)" .
  note out = upsert_auction_same_outcome [OF wf1 wf2 same, of v now]
  show ?thesis
  proof (cases "upsert_auction (h, e) v now db1")
    case (Inl err)
    with out have "upsert_auction (h, e) v now db2 = Inl err"
      by (cases "upsert_auction (h, e) v now db2") simp_all
    with Inl s1 s2 show ?thesis by simp
  next
    case r1: (Inr res1)
    obtain rep i1 d1 where res1: "res1 = (rep, i1, d1)" by (cases res1)
    with r1 have u1: "upsert_auction (h, e) v now db1 = Inr (rep, i1, d1)" by simp
    with out obtain i2 d2 where u2: "upsert_auction (h, e) v now db2 = Inr (rep, i2, d2)"
      by (cases "upsert_auction (h, e) v now db2") auto
    note e1 = upsert_auction_effect [OF wf1 u1] and e2 = upsert_auction_effect [OF wf2 u2]
    have w1: "well_formed d1" and w2: "well_formed d2"
      using wf1 u1 wf2 u2 by (blast intro: well_formed_upsert_auction)+
    have a1: "auction_id_of (h, e) d1 = Some i1" and a2: "auction_id_of (h, e) d2 = Some i2"
      using e1(1) [of "(h, e)"] e2(1) [of "(h, e)"] by simp_all
    have "stored_alike h d1 d2"
    proof (rule stored_alikeI)
      fix e'
      show "(auction_id_of (h, e') d1 = None) = (auction_id_of (h, e') d2 = None)"
        using e1(1) [of "(h, e')"] e2(1) [of "(h, e')"] stored_alikeD(1) [OF al, of e']
        by simp
    next
      fix e' j1 j2 num
      assume j1: "auction_id_of (h, e') d1 = Some j1" and j2: "auction_id_of (h, e') d2 = Some j2"
      show "(find_lot (j1, num) d1 = None) = (find_lot (j2, num) d2 = None)"
      proof (cases "e' = e")
        case False
        with j1 j2 e1(1) [of "(h, e')"] e2(1) [of "(h, e')"]
        have "auction_id_of (h, e') db1 = Some j1" and "auction_id_of (h, e') db2 = Some j2"
          by simp_all
        from stored_alikeD(2) [OF al this] show ?thesis by (simp add: e1(2) e2(2))
      next
        case True
        with j1 j2 a1 a2 have j: "j1 = i1" "j2 = i2" by simp_all
        show ?thesis
        proof (cases "auction_id_of (h, e) db1")
          case None
          with same have "auction_id_of (h, e) db2 = None" by simp
          with None e1(4) e2(4) j show ?thesis by (simp add: e1(2) e2(2))
        next
          case (Some o1)
          with same obtain o2 where o2: "auction_id_of (h, e) db2 = Some o2" by auto
          from e1(5) [OF Some] e2(5) [OF o2] j have "j1 = o1" "j2 = o2" by simp_all
          with stored_alikeD(2) [OF al Some o2] show ?thesis by (simp add: e1(2) e2(2))
        qed
      qed
    qed
    moreover from u1 s1 have "save_auction h x now db1 = Inr (rep, i1, d1)" by simp
    moreover from u2 s2 have "save_auction h x now db2 = Inr (rep, i2, d2)" by simp
    ultimately show ?thesis using w1 w2 a1 a2 by blast
  qed
qed

lemma save_lots_stored_alike:
  assumes wf1: "well_formed d1" and wf2: "well_formed d2" and al: "stored_alike h d1 d2"
    and a1: "auction_id_of (h, e) d1 = Some i1" and a2: "auction_id_of (h, e) d2 = Some i2"
  shows "\<exists>d1' d2' t'. save_lots i1 ls now d1 t = (d1', t', None) \<and>
     save_lots i2 ls now d2 t = (d2', t', None) \<and> well_formed d1' \<and> well_formed d2' \<and>
     stored_alike h d1' d2'"
proof -
  from a1 have m1: "i1 \<in> a_id ` set (auctions d1)" by (rule auction_id_of_stored)
  from a2 have m2: "i2 \<in> a_id ` set (auctions d2)" by (rule auction_id_of_stored)
  from save_lots_effect [OF wf1 m1, of ls now t]
  obtain d1' t1 where s1: "save_lots i1 ls now d1 t = (d1', t1, None)"
    and w1: "well_formed d1'" and au1: "auctions d1' = auctions d1"
    and f1: "\<forall>k'. (find_lot k' d1' = None)
        = (find_lot k' d1 = None \<and> k' \<notin> (\<lambda>l. (i1, ld_lot_number l)) ` set ls)"
    by blast
  from save_lots_effect [OF wf2 m2, of ls now t]
  obtain d2' t2 where s2: "save_lots i2 ls now d2 t = (d2', t2, None)"
    and w2: "well_formed d2'" and au2: "auctions d2' = auctions d2"
    and f2: "\<forall>k'. (find_lot k' d2' = None)
        = (find_lot k' d2 = None \<and> k' \<notin> (\<lambda>l. (i2, ld_lot_number l)) ` set ls)"
    by blast
  from stored_alikeD(2) [OF al a1 a2]
  have "\<forall>num. (find_lot (i1, num) d1 = None) = (find_lot (i2, num) d2 = None)" by simp
  from save_lots_alike [OF wf1 wf2 m1 m2 this, of ls now t] s1 s2 have t: "t2 = t1" by simp
  have "stored_alike h d1' d2'"
  proof (rule stored_alikeI)
    fix e'
    show "(auction_id_of (h, e') d1' = None) = (auction_id_of (h, e') d2' = None)"
      using stored_alikeD(1) [OF al, of e']
      by (simp add: auction_id_of_cong [OF au1] auction_id_of_cong [OF au2])
  next
    fix e' j1 j2 num
    assume "auction_id_of (h, e') d1' = Some j1" and "auction_id_of (h, e') d2' = Some j2"
    then have j1: "auction_id_of (h, e') d1 = Some j1" and j2: "auction_id_of (h, e') d2 = Some j2"
      by (simp_all add: auction_id_of_cong [OF au1] auction_id_of_cong [OF au2])
    have "(j1 = i1) = (j2 = i2)"
    proof
      assume "j1 = i1"
      with auction_id_of_inj [OF wf1 j1, of "(h, e)"] a1 have "e' = e" by simp
      with j2 a2 show "j2 = i2" by simp
    next
      assume "j2 = i2"
      with auction_id_of_inj [OF wf2 j2, of "(h, e)"] a2 have "e' = e" by simp
      with j1 a1 show "j1 = i1" by simp
    qed
    with stored_alikeD(2) [OF al j1 j2, of num] f1 f2
    show "(find_lot (j1, num) d1' = None) = (find_lot (j2, num) d2' = None)"
      by auto
  qed
  with s1 s2 w1 w2 t show ?thesis by blast
qed

lemma scrape_loop_alike:
  "well_formed db1 \<Longrightarrow> well_formed db2 \<Longrightarrow> stored_alike (house_id ad) db1 db2 \<Longrightarrow>
   \<exists>d1 d2 t' err. scrape_loop ad xs now db1 t = (d1, t', err) \<and>
     scrape_loop ad xs now db2 t = (d2, t', err) \<and> well_formed d1 \<and> well_formed d2 \<and>
     stored_alike (house_id ad) d1 d2"
proof (induction xs arbitrary: db1 db2 t)
  case Nil
  then show ?case by simp
next
  case (Cons x xs)
  from save_auction_alike [OF Cons.prems, of x now]
  consider (invalid) e where "save_auction (house_id ad) x now db1 = Inl e"
      and "save_auction (house_id ad) x now db2 = Inl e"
    | (saved) rep i1 d1 i2 d2 e where "save_auction (house_id ad) x now db1 = Inr (rep, i1, d1)"
      and "save_auction (house_id ad) x now db2 = Inr (rep, i2, d2)"
      and "well_formed d1" and "well_formed d2" and "stored_alike (house_id ad) d1 d2"
      and "auction_id_of (house_id ad, e) d1 = Some i1"
      and "auction_id_of (house_id ad, e) d2 = Some i2"
    by blast
  then show ?case
  proof cases
    case invalid
    with Cons.prems show ?thesis by simp
  next
    case saved
    show ?thesis
    proof (cases "d_url x")
      case None
      with saved show ?thesis by simp
    next
      case (Some url)
      show ?thesis
      proof (cases "scrape_lots ad url")
        case (Inl e')
        with saved Some show ?thesis by simp
      next
        case (Inr ls)
        from save_lots_stored_alike [OF saved(3,4,5,6,7), of ls now "tally rep t"]
        obtain d1' d2' t' where l1: "save_lots i1 ls now d1 (tally rep t) = (d1', t', None)"
          and l2: "save_lots i2 ls now d2 (tally rep t) = (d2', t', None)"
          and w: "well_formed d1'" "well_formed d2'" "stored_alike (house_id ad) d1' d2'"
          by blast
        from Cons.IH [OF w, of t'] saved(1,2) Some Inr l1 l2 show ?thesis by simp
      qed
    qed
  qed
qed

lemma scrape_house_data_alike:
  assumes "well_formed db1" and "well_formed db2" and "stored_alike (house_id ad) db1 db2"
  shows "snd (scrape_house_data ad house now db1) = snd (scrape_house_data ad house now db2)"
    and "well_formed (fst (scrape_house_data ad house now db1))"
    and "well_formed (fst (scrape_house_data ad house now db2))"
    and "stored_alike (house_id ad)
           (fst (scrape_house_data ad house now db1)) (fst (scrape_house_data ad house now db2))"
proof -
  have "snd (scrape_house_data ad house now db1) = snd (scrape_house_data ad house now db2) \<and>
      well_formed (fst (scrape_house_data ad house now db1)) \<and>
      well_formed (fst (scrape_house_data ad house now db2)) \<and>
      stored_alike (house_id ad)
           (fst (scrape_house_data ad house now db1)) (fst (scrape_house_data ad house now db2))"
  proof (cases "scrape_auctions ad")
    case (Inl e)
    with assms show ?thesis by (simp add: scrape_house_data_def)
  next
    case (Inr xs)
    from scrape_loop_alike [OF assms, of xs now no_tallies]
    obtain d1 d2 t' err where "scrape_loop ad xs now db1 no_tallies = (d1, t', err)"
      and "scrape_loop ad xs now db2 no_tallies = (d2, t', err)"
      and "well_formed d1" and "well_formed d2" and "stored_alike (house_id ad) d1 d2"
      by blast
    with Inr show ?thesis by (cases err) (simp_all add: scrape_house_data_def)
  qed
  then show "snd (scrape_house_data ad house now db1) = snd (scrape_house_data ad house now db2)"
    and "well_formed (fst (scrape_house_data ad house now db1))"
    and "well_formed (fst (scrape_house_data ad house now db2))"
    and "stored_alike (house_id ad)
           (fst (scrape_house_data ad house now db1)) (fst (scrape_house_data ad house now db2))"
    by simp_all
qed

lemma stored_alike_refl: "stored_alike h db db"
  by (rule stored_alikeI) simp_all

lemma o_house_scrape_house_data: "o_house (snd (scrape_house_data ad house now db)) = house"
  by (simp add: scrape_house_data_def log_scraping_error_def log_scraping_success_def
      split: sum.splits prod.splits option.splits)

lemma scrape_house_data_fatal:
  "scrape_auctions ad = Inl e \<Longrightarrow> fst (scrape_house_data ad house now db) = db"
  by (simp add: scrape_house_data_def)

text \<open>A task of a source other than \<open>B\<close>, or one whose adapter fails at its entry.\<close>

lemma run_task_other:
  assumes wf: "well_formed (store w)" and n: "fst job \<noteq> B"
    and ad: "\<And>ad. H (fst job) = Some ad \<Longrightarrow> house_id ad \<noteq> h \<or> (\<exists>e. scrape_auctions ad = Inl e)"
  shows "well_formed (store (run_task H job w))"
    and "untouched h (store w) (store (run_task H job w))"
    and "filter (\<lambda>entry. o_house entry = B) (history (run_task H job w))
           = filter (\<lambda>entry. o_house entry = B) (history w)"
proof -
  have "well_formed (store (run_task H job w)) \<and>
      untouched h (store w) (store (run_task H job w)) \<and>
      filter (\<lambda>entry. o_house entry = B) (history (run_task H job w))
           = filter (\<lambda>entry. o_house entry = B) (history w)"
  proof (cases "H (fst job)")
    case None
    with wf show ?thesis by (simp add: run_task_def untouched_refl)
  next
    case (Some a)
    obtain db' entry where r: "scrape_house_data a (fst job) (snd job) (store w) = (db', entry)"
      by (cases "scrape_house_data a (fst job) (snd job) (store w)")
    with Some have w': "run_task H job w = \<lparr>store = db', history = history w @ [entry]\<rparr>"
      by (simp add: run_task_def)
    from r o_house_scrape_house_data [of a "fst job" "snd job" "store w"] n
    have e: "o_house entry \<noteq> B" by simp
    from ad [OF Some] have "well_formed db' \<and> untouched h (store w) db'"
    proof
      assume "house_id a \<noteq> h"
      from scrape_house_data_untouched [OF wf this r] show ?thesis by simp
    next
      assume "\<exists>e. scrape_auctions a = Inl e"
      then obtain e where "scrape_auctions a = Inl e" ..
      from scrape_house_data_fatal [OF this, of "fst job" "snd job" "store w"] r wf
      show ?thesis by (simp add: untouched_refl)
    qed
    with e show ?thesis by (simp add: w')
  qed
  then show "well_formed (store (run_task H job w))"
    and "untouched h (store w) (store (run_task H job w))"
    and "filter (\<lambda>entry. o_house entry = B) (history (run_task H job w))
           = filter (\<lambda>entry. o_house entry = B) (history w)"
    by simp_all
qed

lemma run_task_alike:
  assumes wf1: "well_formed (store w1)" and wf2: "well_formed (store w2)"
    and al: "stored_alike (house_id ad) (store w1) (store w2)"
    and hist: "filter (\<lambda>entry. o_house entry = B) (history w1)
           = filter (\<lambda>entry. o_house entry = B) (history w2)"
    and G: "G (fst job) = Some ad" and H: "H (fst job) = Some ad"
  shows "well_formed (store (run_task G job w1))"
    and "well_formed (store (run_task H job w2))"
    and "stored_alike (house_id ad) (store (run_task G job w1)) (store (run_task H job w2))"
    and "filter (\<lambda>entry. o_house entry = B) (history (run_task G job w1))
           = filter (\<lambda>entry. o_house entry = B) (history (run_task H job w2))"
  using scrape_house_data_alike [OF wf1 wf2 al, of "fst job" "snd job"] hist G H
  by (simp_all add: run_task_def split_beta)

lemma run_tasks_alike:
  assumes B: "G B = Some adB" and ne: "B \<noteq> A" and bad: "scrape_auctions bad = Inl e"
    and ids: "\<And>n ad. n \<noteq> B \<Longrightarrow> G n = Some ad \<Longrightarrow> house_id ad \<noteq> house_id adB"
  shows "well_formed (store w1) \<Longrightarrow> well_formed (store w2) \<Longrightarrow>
     stored_alike (house_id adB) (store w1) (store w2) \<Longrightarrow>
     filter (\<lambda>entry. o_house entry = B) (history w1)
       = filter (\<lambda>entry. o_house entry = B) (history w2) \<Longrightarrow>
     stored_alike (house_id adB) (store (run_tasks G jobs w1))
       (store (run_tasks (G(A := Some bad)) jobs w2)) \<and>
     filter (\<lambda>entry. o_house entry = B) (history (run_tasks G jobs w1))
       = filter (\<lambda>entry. o_house entry = B) (history (run_tasks (G(A := Some bad)) jobs w2))"
proof (induction jobs arbitrary: w1 w2)
  case Nil
  then show ?case by (simp add: run_tasks_def)
next
  case (Cons job jobs)
  let ?H = "G(A := Some bad)"
  let ?w1 = "run_task G job w1" and ?w2 = "run_task ?H job w2"
  have step: "well_formed (store ?w1) \<and> well_formed (store ?w2) \<and>
      stored_alike (house_id adB) (store ?w1) (store ?w2) \<and>
      filter (\<lambda>entry. o_house entry = B) (history ?w1)
        = filter (\<lambda>entry. o_house entry = B) (history ?w2)"
  proof (cases "fst job = B")
    case True
    with B ne have "G (fst job) = Some adB" and "?H (fst job) = Some adB" by simp_all
    from run_task_alike [where G = G and H = "?H" and job = job and B = B, OF Cons.prems this]
    show ?thesis by simp
  next
    case False
    have g: "house_id ad \<noteq> house_id adB \<or> (\<exists>e. scrape_auctions ad = Inl e)"
      if "G (fst job) = Some ad" for ad
      using ids [OF False that] by simp
    have h: "house_id ad \<noteq> house_id adB \<or> (\<exists>e. scrape_auctions ad = Inl e)"
      if "?H (fst job) = Some ad" for ad
      using that ids [OF False, of ad] bad by (auto split: if_splits)
    note o1 = run_task_other [where H = G and h = "house_id adB" and job = job and B = B
        and w = w1, OF Cons.prems(1) False g]
    note o2 = run_task_other [where H = "?H" and h = "house_id adB" and job = job and B = B
        and w = w2, OF Cons.prems(2) False h]
    from stored_alike_untouched [OF Cons.prems(3) o1(2) o2(2)] o1(1,3) o2(1,3) Cons.prems(4)
    show ?thesis by simp
  qed
  then have "stored_alike (house_id adB) (store (run_tasks G jobs ?w1))
       (store (run_tasks ?H jobs ?w2)) \<and>
     filter (\<lambda>entry. o_house entry = B) (history (run_tasks G jobs ?w1))
       = filter (\<lambda>entry. o_house entry = B) (history (run_tasks ?H jobs ?w2))"
    by (intro Cons.IH) simp_all
  then show ?case by (simp only: run_tasks_def fold.simps o_apply)
qed

lemma run_tasks_entries:
  assumes "H B = Some adB"
  shows "length (filter (\<lambda>entry. o_house entry = B) (history (run_tasks H jobs w)))
     = length (filter (\<lambda>entry. o_house entry = B) (history w))
       + length (filter (\<lambda>job. fst job = B) jobs)"
proof (induction jobs arbitrary: w)
  case Nil
  then show ?case by (simp add: run_tasks_def)
next
  case (Cons job jobs)
  have "length (filter (\<lambda>entry. o_house entry = B) (history (run_task H job w)))
      = length (filter (\<lambda>entry. o_house entry = B) (history w)) + (if fst job = B then 1 else 0)"
    using assms o_house_scrape_house_data [of _ "fst job" "snd job" "store w"]
    by (cases "H (fst job)") (auto simp: run_task_def split_beta)
  with Cons.IH [of "run_task H job w"] show ?case by (simp add: run_tasks_def)
qed

text \<open>
  C7: tasks run one after another from a well-formed store, under a registry in which
  no other source has B's house id. Replace the adapter of a source A by one whose
  listing call fails, whatever A's adapter did before. Then every entry logged for B is
  the same as without the failure, in the same order: the same state, error and
  tallies; each of B's queued tasks logs its entry; and the same auctions of B are
  stored.
\<close>

theorem failure_isolated:
  "well_formed (store w) \<and> G B = Some adB \<and> B \<noteq> A \<and> scrape_auctions bad = Inl e \<and>
   (\<forall>n ad. n \<noteq> B \<and> G n = Some ad \<longrightarrow> house_id ad \<noteq> house_id adB)
     \<longrightarrow> filter (\<lambda>entry. o_house entry = B) (history (run_tasks (G(A := Some bad)) jobs w))
           = filter (\<lambda>entry. o_house entry = B) (history (run_tasks G jobs w)) \<and>
         length (filter (\<lambda>entry. o_house entry = B)
             (history (run_tasks (G(A := Some bad)) jobs w)))
           = length (filter (\<lambda>entry. o_house entry = B) (history w))
             + length (filter (\<lambda>job. fst job = B) jobs) \<and>
         (find_auction (house_id adB, ext) (store (run_tasks (G(A := Some bad)) jobs w)) = None)
           = (find_auction (house_id adB, ext) (store (run_tasks G jobs w)) = None)"
proof (intro impI, elim conjE)
  assume wf: "well_formed (store w)" and B: "G B = Some adB" and ne: "B \<noteq> A"
    and bad: "scrape_auctions bad = Inl e"
    and ids: "\<forall>n ad. n \<noteq> B \<and> G n = Some ad \<longrightarrow> house_id ad \<noteq> house_id adB"
  from ids have ids': "\<And>n ad. n \<noteq> B \<Longrightarrow> G n = Some ad \<Longrightarrow> house_id ad \<noteq> house_id adB"
    by blast
  from run_tasks_alike [where G = G and B = B and A = A and jobs = jobs and ?w1.0 = w
      and ?w2.0 = w, OF B ne bad ids' wf wf stored_alike_refl refl]
  have al: "stored_alike (house_id adB) (store (run_tasks G jobs w))
       (store (run_tasks (G(A := Some bad)) jobs w))"
    and h: "filter (\<lambda>entry. o_house entry = B) (history (run_tasks G jobs w))
       = filter (\<lambda>entry. o_house entry = B) (history (run_tasks (G(A := Some bad)) jobs w))"
    by simp_all
  from B ne have "(G(A := Some bad)) B = Some adB" by simp
  from run_tasks_entries [where H = "G(A := Some bad)" and B = B and jobs = jobs and w = w,
      OF this] h stored_alikeD(1) [OF al, of ext]
  show "filter (\<lambda>entry. o_house entry = B) (history (run_tasks (G(A := Some bad)) jobs w))
           = filter (\<lambda>entry. o_house entry = B) (history (run_tasks G jobs w)) \<and>
         length (filter (\<lambda>entry. o_house entry = B)
             (history (run_tasks (G(A := Some bad)) jobs w)))
           = length (filter (\<lambda>entry. o_house entry = B) (history w))
             + length (filter (\<lambda>job. fst job = B) jobs) \<and>
         (find_auction (house_id adB, ext) (store (run_tasks (G(A := Some bad)) jobs w)) = None)
           = (find_auction (house_id adB, ext) (store (run_tasks G jobs w)) = None)"
    by (simp add: find_auction_None_iff)
qed

theorem failure_isolated_witness:
  "filter (\<lambda>entry. o_house entry = ''y'')
     (history (run_tasks
        (two_sources(''x'' := Some (source_y\<lparr>scrape_auctions := Inl (RequestException ''timeout'')\<rparr>)))
        [(''x'', 5), (''y'', 6)] \<lparr>store = empty_database, history = []\<rparr>))
     = [\<lparr>o_house = ''y'', o_status = Completed,
         o_tallies = \<lparr>processed = 2, created = 2, updated = 0\<rparr>\<rparr>]"
proof -
  let ?bad = "source_y\<lparr>scrape_auctions := Inl (RequestException ''timeout'')\<rparr>"
  let ?w = "\<lparr>store = empty_database, history = []\<rparr>"
  have 1: "well_formed (store ?w)" by (simp add: well_formed_empty)
  have 2: "two_sources ''y'' = Some source_y" by (simp add: two_sources_def)
  have 3: "''y'' \<noteq> ''x''" by simp
  have 4: "scrape_auctions ?bad = Inl (RequestException ''timeout'')" by simp
  have 5: "\<forall>n ad. n \<noteq> ''y'' \<and> two_sources n = Some ad \<longrightarrow> house_id ad \<noteq> house_id source_y"
    by (auto simp: two_sources_def source_x_def source_y_def split: if_splits)
  have "filter (\<lambda>entry. o_house entry = ''y'')
      (history (run_tasks two_sources [(''x'', 5), (''y'', 6)] ?w))
      = [\<lparr>o_house = ''y'', o_status = Completed,
         o_tallies = \<lparr>processed = 2, created = 2, updated = 0\<rparr>\<rparr>]"
    by (simp add: run_tasks_def run_task_def two_sources_def source_y_def job_eval store_eval)
  with failure_isolated [rule_format, OF conjI [OF 1 conjI [OF 2 conjI [OF 3 conjI [OF 4 5]]]],
      of "[(''x'', 5), (''y'', 6)]"]
  show ?thesis by simp
qed

end
